theory Spec2Isabelle
  imports Main
begin

section \<open>Strings, UTF-8 and the library functions the code relies on\<close>

text \<open>
  A Go string is a sequence of bytes; it is modelled as a \<open>string\<close> (a list of 8-bit
  characters). The code reads strings byte by byte (\<^verbatim>\<open>line[0]\<close>, \<^verbatim>\<open>strings.IndexByte\<close>) and
  character by character (\<^verbatim>\<open>for _, c := range v\<close>, \<^verbatim>\<open>strings.TrimSpace\<close>,
  \<^verbatim>\<open>strings.ToLower\<close>); a character (a rune) is a Unicode code point, a \<open>nat\<close> here. The
  functions of the Go library are modelled after the library: \<^verbatim>\<open>unicode/utf8\<close> decoding and
  encoding, \<^verbatim>\<open>unicode.IsSpace\<close>, and the trimming and lower-casing of package
  \<^verbatim>\<open>strings\<close>. The table of \<^verbatim>\<open>unicode.ToLower\<close> is a parameter \<open>U\<close> of every definition that
  lower-cases a name; the theorems hold for every such table.
\<close>

abbreviation LF :: char where "LF \<equiv> CHR 0x0A"
abbreviation CR :: char where "CR \<equiv> CHR 0x0D"
abbreviation TAB :: char where "TAB \<equiv> CHR 0x09"
abbreviation VT :: char where "VT \<equiv> CHR 0x0B"
abbreviation FF :: char where "FF \<equiv> CHR 0x0C"
abbreviation SP :: char where "SP \<equiv> CHR 0x20"
abbreviation DQ :: char where "DQ \<equiv> CHR 0x22"
abbreviation SQ :: char where "SQ \<equiv> CHR 0x27"
abbreviation BS :: char where "BS \<equiv> CHR 0x5C"

abbreviation byte :: "char \<Rightarrow> nat" where "byte c \<equiv> of_char c"

definition RuneError :: nat where
  "RuneError = 0xFFFD"

text \<open>
  \<^verbatim>\<open>utf8.DecodeRuneInString\<close>: the code point at the start of the string and its width in
  bytes. A byte that does not start a well-formed UTF-8 sequence is read as
  \<open>(RuneError, 1)\<close>. The second byte is accepted in a range that depends on the first
  (\<open>lo\<close>, \<open>hi\<close>), which excludes over-long forms and surrogates.
\<close>

fun decodeRune :: "string \<Rightarrow> nat \<times> nat" where
  "decodeRune [] = (RuneError, 0)"
| "decodeRune (p0 # ps) =
     (let x = byte p0 in
      if x < 0x80 then (x, 1)
      else if x < 0xC2 \<or> 0xF4 < x then (RuneError, 1)
      else
        (let sz = (if x < 0xE0 then 2 else if x < 0xF0 then 3 else 4 :: nat);
             lo = (if x = 0xE0 then 0xA0 else if x = 0xF0 then 0x90 else 0x80 :: nat);
             hi = (if x = 0xED then 0x9F else if x = 0xF4 then 0x8F else 0xBF :: nat)
         in if length (p0 # ps) < sz then (RuneError, 1)
            else
              (let b1 = byte (ps ! 0) in
               if b1 < lo \<or> hi < b1 then (RuneError, 1)
               else if sz \<le> 2 then ((x - 0xC0) * 64 + (b1 - 0x80), 2)
               else
                 (let b2 = byte (ps ! 1) in
                  if b2 < 0x80 \<or> 0xBF < b2 then (RuneError, 1)
                  else if sz \<le> 3 then
                    ((x - 0xE0) * 4096 + (b1 - 0x80) * 64 + (b2 - 0x80), 3)
                  else
                    (let b3 = byte (ps ! 2) in
                     if b3 < 0x80 \<or> 0xBF < b3 then (RuneError, 1)
                     else
                       ((x - 0xF0) * 262144 + (b1 - 0x80) * 4096 + (b2 - 0x80) * 64
                          + (b3 - 0x80), 4))))))"

text \<open>\<^verbatim>\<open>utf8.AppendRune\<close>, which \<^verbatim>\<open>WriteRune\<close> of a \<^verbatim>\<open>strings.Builder\<close> calls: a code point that
  is too large or a surrogate is written as \<open>RuneError\<close> (the bytes EF BF BD).\<close>

definition encodeRune :: "nat \<Rightarrow> string" where
  "encodeRune r =
     (if r \<le> 0x7F then [char_of r]
      else if r \<le> 0x7FF then [char_of (0xC0 + r div 64), char_of (0x80 + r mod 64)]
      else if 0x10FFFF < r \<or> (0xD800 \<le> r \<and> r \<le> 0xDFFF) then [CHR 0xEF, CHR 0xBF, CHR 0xBD]
      else if r \<le> 0xFFFF then
        [char_of (0xE0 + r div 4096), char_of (0x80 + (r div 64) mod 64),
         char_of (0x80 + r mod 64)]
      else
        [char_of (0xF0 + r div 262144), char_of (0x80 + (r div 4096) mod 64),
         char_of (0x80 + (r div 64) mod 64), char_of (0x80 + r mod 64)])"

text \<open>The characters that \<^verbatim>\<open>for _, c := range s\<close> visits: each step decodes one character and
  moves on by its width (at least one byte).\<close>

fun runes :: "string \<Rightarrow> nat list" where
  "runes [] = []"
| "runes (c # cs) = (case decodeRune (c # cs) of (r, n) \<Rightarrow> r # runes (drop (n - 1) cs))"

text \<open>\<^verbatim>\<open>unicode.IsSpace\<close>: the Latin-1 spaces and the code points with the property
  White_Space.\<close>

definition isSpace :: "nat \<Rightarrow> bool" where
  "isSpace r =
     ((0x09 \<le> r \<and> r \<le> 0x0D) \<or> r = 0x20 \<or> r = 0x85 \<or> r = 0xA0 \<or> r = 0x1680
      \<or> (0x2000 \<le> r \<and> r \<le> 0x200A) \<or> r = 0x2028 \<or> r = 0x2029 \<or> r = 0x202F
      \<or> r = 0x205F \<or> r = 0x3000)"

text \<open>\<^verbatim>\<open>strings.TrimLeftFunc(s, unicode.IsSpace)\<close>: the string from its first character that is
  no space.\<close>

fun trimLeft :: "string \<Rightarrow> string" where
  "trimLeft [] = []"
| "trimLeft (c # cs) =
     (case decodeRune (c # cs) of
        (r, n) \<Rightarrow> if isSpace r then trimLeft (drop (n - 1) cs) else c # cs)"

text \<open>
  \<^verbatim>\<open>utf8.DecodeLastRuneInString\<close>: the last character of the string and its width. An ASCII
  last byte is the character. Otherwise the library walks back over at most three bytes
  before the last one to the nearest byte that can start a character (\<open>lastStart\<close> gives
  the number of bytes from there to the end) and decodes from there; the result counts
  when it ends exactly at the end of the string, and is \<open>(RuneError, 1)\<close> otherwise, also
  when no such byte is found.
\<close>

definition runeStart :: "char \<Rightarrow> bool" where
  "runeStart b = (byte b < 0x80 \<or> 0xBF < byte b)"

fun lastStart :: "string \<Rightarrow> nat option" where
  "lastStart (b1 # b2 # b3 # bs) =
     (if runeStart b1 then Some 2 else if runeStart b2 then Some 3
      else if runeStart b3 then Some 4 else None)"
| "lastStart [b1, b2] = (if runeStart b1 then Some 2 else if runeStart b2 then Some 3 else None)"
| "lastStart [b1] = (if runeStart b1 then Some 2 else None)"
| "lastStart [] = None"

definition decodeLastRune :: "string \<Rightarrow> nat \<times> nat" where
  "decodeLastRune s =
     (case rev s of
        [] \<Rightarrow> (RuneError, 0)
      | l0 # prev \<Rightarrow>
          if byte l0 < 0x80 then (byte l0, 1)
          else
            (case lastStart prev of
               None \<Rightarrow> (RuneError, 1)
             | Some k \<Rightarrow>
                 (case decodeRune (drop (length s - k) s) of
                    (r, width) \<Rightarrow> if width = k then (r, width) else (RuneError, 1))))"

text \<open>\<^verbatim>\<open>strings.TrimRightFunc(s, unicode.IsSpace)\<close>: the string up to its last character that
  is no space.\<close>

function trimRight :: "string \<Rightarrow> string" where
  "trimRight [] = []"
| "trimRight (c # cs) =
     (case decodeLastRune (c # cs) of
        (r, n) \<Rightarrow>
          if isSpace r then trimRight (take (length (c # cs) - n) (butlast (c # cs)))
          else c # cs)"
  by pat_completeness auto
termination
  by (relation "measure length") auto

text \<open>\<^verbatim>\<open>strings.TrimSpace\<close>: leading and trailing white space removed (the library's fast
  paths for ASCII give the same result).\<close>

definition TrimSpace :: "string \<Rightarrow> string" where
  "TrimSpace s = trimRight (trimLeft s)"

text \<open>
  \<^verbatim>\<open>strings.ToLower\<close>. A string of ASCII bytes is lower-cased byte by byte: the letters A to Z
  (0x41 to 0x5A) get bit 5 set. Any other string is mapped character by character with
  \<^verbatim>\<open>unicode.ToLower\<close>, the table \<open>U\<close>, and written back in UTF-8 (\<^verbatim>\<open>strings.Map\<close>), so that
  a byte that is no UTF-8 is read as \<open>RuneError\<close>.
\<close>

fun lowerByte :: "char \<Rightarrow> char" where
  "lowerByte (Char b0 b1 b2 b3 b4 b5 b6 b7) =
     (let n = byte (Char b0 b1 b2 b3 b4 b5 b6 b7) in
      if 65 \<le> n \<and> n \<le> 90 then Char b0 b1 b2 b3 b4 True b6 b7
      else Char b0 b1 b2 b3 b4 b5 b6 b7)"

definition ToLower :: "(nat \<Rightarrow> nat) \<Rightarrow> string \<Rightarrow> string" where
  "ToLower U s =
     (if list_all (\<lambda>c. byte c < 0x80) s then map lowerByte s
      else concat (map (\<lambda>r. encodeRune (U r)) (runes s)))"

text \<open>\<^verbatim>\<open>strings.IndexByte\<close>: the index of the first occurrence, \<open>None\<close> for Go's -1.\<close>

fun IndexByte :: "string \<Rightarrow> char \<Rightarrow> nat option" where
  "IndexByte [] b = None"
| "IndexByte (c # cs) b = (if c = b then Some 0 else map_option Suc (IndexByte cs b))"

text \<open>The table of \<^verbatim>\<open>unicode.ToLower\<close> on the code points up to U+00FF, for the examples:
  A to Z, and the Latin-1 capitals U+00C0 to U+00DE but the multiplication sign U+00D7.\<close>

definition latin1Lower :: "nat \<Rightarrow> nat" where
  "latin1Lower r =
     (if (0x41 \<le> r \<and> r \<le> 0x5A) \<or> (0xC0 \<le> r \<and> r \<le> 0xDE \<and> r \<noteq> 0xD7) then r + 32 else r)"

section \<open>The document\<close>

text \<open>\<^verbatim>\<open>type Ini map[string]map[string]string\<close>\<close>

type_synonym Section = "string \<rightharpoonup> string"
type_synonym Ini = "string \<rightharpoonup> Section"

definition New :: Ini where
  "New = Map.empty"

definition Get :: "(nat \<Rightarrow> nat) \<Rightarrow> Ini \<Rightarrow> string \<Rightarrow> string \<Rightarrow> string \<times> bool" where
  "Get U i section key =
     (case i (ToLower U section) of
        None \<Rightarrow> ('''', False)
      | Some s \<Rightarrow> (case s (ToLower U key) of None \<Rightarrow> ('''', False) | Some r \<Rightarrow> (r, True)))"

definition Set :: "(nat \<Rightarrow> nat) \<Rightarrow> Ini \<Rightarrow> string \<Rightarrow> string \<Rightarrow> string \<Rightarrow> Ini" where
  "Set U i section key val =
     (let section = ToLower U section; key = ToLower U key in
      case i section of
        None \<Rightarrow> i(section \<mapsto> Map.empty(key \<mapsto> val))
      | Some s \<Rightarrow> i(section \<mapsto> s(key \<mapsto> val)))"

definition Unset :: "(nat \<Rightarrow> nat) \<Rightarrow> Ini \<Rightarrow> string \<Rightarrow> string \<Rightarrow> Ini" where
  "Unset U i section key =
     (let section = ToLower U section; key = ToLower U key in
      case i section of
        None \<Rightarrow> i
      | Some s \<Rightarrow>
          (let s' = s(key := None) in
           if dom s' = {} then i(section := None) else i(section \<mapsto> s')))"

definition HasSection :: "(nat \<Rightarrow> nat) \<Rightarrow> Ini \<Rightarrow> string \<Rightarrow> bool" where
  "HasSection U i section = (i (ToLower U section) \<noteq> None)"

section \<open>The parser\<close>

datatype ini_error =
    EmptySectionName nat    \<comment> \<open>\<^verbatim>\<open>line %d: empty section name\<close>\<close>
  | MissingDelimiter nat    \<comment> \<open>\<^verbatim>\<open>line %d: invalid format, missing '='\<close>\<close>
  | EmptyKeyName nat        \<comment> \<open>\<^verbatim>\<open>line %d: empty key name\<close>\<close>
  | ScannerError            \<comment> \<open>\<^verbatim>\<open>scanner error: ...\<close>\<close>

text \<open>
  \<^verbatim>\<open>bufio.Scanner\<close> with its default split function \<^verbatim>\<open>ScanLines\<close>: the input is cut
  at every line feed, a last line without line feed is a token when it is not empty, and
  each token loses one trailing carriage return. \<open>scanLines cur rest\<close> carries the token
  read so far. The buffer set by \<^verbatim>\<open>r.Buffer(buf, 1024*1024)\<close> holds at most
  \<open>maxTokenSize\<close> bytes, so a line of that many bytes or more before its line feed ends
  the scan with \<^verbatim>\<open>ErrTooLong\<close>.
\<close>

definition maxTokenSize :: nat where
  "maxTokenSize = 1024 * 1024"

fun scanLines :: "string \<Rightarrow> string \<Rightarrow> string list" where
  "scanLines cur [] = (if cur = [] then [] else [cur])"
| "scanLines cur (c # cs) =
     (if c = LF then cur # scanLines [] cs else scanLines (cur @ [c]) cs)"

definition dropCR :: "string \<Rightarrow> string" where
  "dropCR tok = (if tok \<noteq> [] \<and> last tok = CR then butlast tok else tok)"

text \<open>The escape loop of \<^verbatim>\<open>ReadFrom\<close>: the quote character, the builder \<open>b\<close>, the flag
  \<open>escape\<close> and the characters of the inner text still to visit. The characters \<open>n\<close>,
  \<open>r\<close>, \<open>t\<close>, backslash, double quote and single quote are the code points 0x6E, 0x72,
  0x74, 0x5C, 0x22 and 0x27.\<close>

fun decodeLoop :: "nat \<Rightarrow> string \<Rightarrow> bool \<Rightarrow> nat list \<Rightarrow> string" where
  "decodeLoop quote b escape [] = (if escape then b @ [BS] else b)"
| "decodeLoop quote b escape (c # cs) =
     (if escape then
        decodeLoop quote
          (if c = 0x6E then b @ [LF]
           else if c = 0x72 then b @ [CR]
           else if c = 0x74 then b @ [TAB]
           else if c = 0x5C then b @ [BS]
           else if c = 0x22 \<or> c = 0x27 then
             (if c = quote then b @ encodeRune c else b @ [BS] @ encodeRune c)
           else b @ [BS] @ encodeRune c)
          False cs
      else if c = 0x5C then decodeLoop quote b True cs
      else decodeLoop quote (b @ encodeRune c) False cs)"

text \<open>Quote handling of a trimmed value (\<^verbatim>\<open>v[1 : len(v)-1]\<close> is \<open>butlast (tl v)\<close>).\<close>

definition unquote :: "string \<Rightarrow> string" where
  "unquote v =
     (if 2 \<le> length v then
        if (hd v = DQ \<and> last v = DQ) \<or> (hd v = SQ \<and> last v = SQ) then
          (let quote = byte (hd v); v' = butlast (tl v) in
           if BS \<in> set v' then decodeLoop quote [] False (runes v') else v')
        else v
      else v)"

text \<open>
  The body of the scanning loop for one line. The variable \<^verbatim>\<open>sectionMap\<close> of the source
  caches the inner map \<^verbatim>\<open>i[section]\<close> (it is reset at each header and refilled at the
  next key line); writing through it writes the entry of \<open>i\<close>, which is what the
  last branch does.
\<close>

definition parseLine ::
  "(nat \<Rightarrow> nat) \<Rightarrow> nat \<Rightarrow> string \<Rightarrow> string \<Rightarrow> Ini \<Rightarrow> ini_error + (string \<times> Ini)" where
  "parseLine U lineNum text section i =
     (let line = TrimSpace text in
      if length line = 0 then Inr (section, i)
      else if hd line = CHR '';'' \<or> hd line = CHR ''#'' then Inr (section, i)
      else if 2 \<le> length line \<and> hd line = CHR ''['' \<and> last line = CHR '']'' then
        (let section = ToLower U (TrimSpace (butlast (tl line))) in
         if section = [] then Inl (EmptySectionName lineNum) else Inr (section, i))
      else
        (case IndexByte line (CHR ''='') of
           None \<Rightarrow> Inl (MissingDelimiter lineNum)
         | Some pos \<Rightarrow>
             (let k = ToLower U (TrimSpace (take pos line)) in
              if k = [] then Inl (EmptyKeyName lineNum)
              else
                (let v = unquote (TrimSpace (drop (pos + 1) line)) in
                 Inr (section,
                      case i section of
                        None \<Rightarrow> i(section \<mapsto> Map.empty(k \<mapsto> v))
                      | Some sectionMap \<Rightarrow> i(section \<mapsto> sectionMap(k \<mapsto> v)))))))"

text \<open>The loop \<^verbatim>\<open>for r.Scan()\<close> over the tokens; \<^verbatim>\<open>bytesRead\<close> is an int64 that
  cannot overflow on inputs that fit in memory, so it is an \<open>int\<close>.\<close>

fun readLoop ::
  "(nat \<Rightarrow> nat) \<Rightarrow> string list \<Rightarrow> nat \<Rightarrow> int \<Rightarrow> string \<Rightarrow> Ini \<Rightarrow> Ini \<times> int \<times> ini_error option" where
  "readLoop U [] lineNum bytesRead section i = (i, bytesRead, None)"
| "readLoop U (tok # rest) lineNum bytesRead section i =
     (if maxTokenSize \<le> length tok then (i, bytesRead, Some ScannerError)
      else
        (let lineNum = lineNum + 1;
             line = dropCR tok;
             bytesRead = bytesRead + int (length line + 1)
         in case parseLine U lineNum line section i of
              Inl e \<Rightarrow> (i, bytesRead, Some e)
            | Inr (section', i') \<Rightarrow> readLoop U rest lineNum bytesRead section' i'))"

definition ReadFrom :: "(nat \<Rightarrow> nat) \<Rightarrow> Ini \<Rightarrow> string \<Rightarrow> Ini \<times> int \<times> ini_error option" where
  "ReadFrom U i source = readLoop U (scanLines [] source) 0 0 ''root'' i"

definition Load :: "(nat \<Rightarrow> nat) \<Rightarrow> Ini \<Rightarrow> string \<Rightarrow> Ini \<times> ini_error option" where
  "Load U i source = (case ReadFrom U i source of (i', _, err) \<Rightarrow> (i', err))"

section \<open>The serializer\<close>

text \<open>
  Go visits the entries of a map in an unspecified order. A \<^verbatim>\<open>range\<close> loop over a map
  is modelled by the list of keys in the order of the visit: \<open>rangeMap m ks\<close> is the
  sequence of entries seen, and \<open>enumerates ks m\<close> says that \<open>ks\<close> is such an order
  (every key of the map once).
\<close>

definition rangeMap :: "('k \<rightharpoonup> 'v) \<Rightarrow> 'k list \<Rightarrow> ('k \<times> 'v) list" where
  "rangeMap m ks = List.map_filter (\<lambda>k. map_option (Pair k) (m k)) ks"

definition enumerates :: "'k list \<Rightarrow> ('k \<rightharpoonup> 'v) \<Rightarrow> bool" where
  "enumerates ks m = (distinct ks \<and> set ks = dom m)"

definition ContainsAny :: "string \<Rightarrow> string \<Rightarrow> bool" where
  "ContainsAny s chars = list_ex (\<lambda>c. c \<in> set chars) s"

text \<open>The Go literal \<^verbatim>\<open>" \t\n\r\"'=;#[]"\<close>.\<close>

definition quoteChars :: string where
  "quoteChars = [SP, TAB, LF, CR, DQ, SQ, CHR ''='', CHR '';'', CHR ''#'', CHR ''['', CHR '']'']"

text \<open>The loop \<^verbatim>\<open>for _, c := range v\<close> of \<^verbatim>\<open>writeSection\<close> over the characters of the value
  (double quote 0x22, backslash 0x5C, line feed 0x0A, carriage return 0x0D, tab 0x09).\<close>

fun escapeLoop :: "string \<Rightarrow> nat list \<Rightarrow> string" where
  "escapeLoop b [] = b"
| "escapeLoop b (c # cs) =
     escapeLoop
       (if c = 0x22 then b @ [BS, DQ]
        else if c = 0x5C then b @ [BS, BS]
        else if c = 0x0A then b @ [BS, CHR ''n'']
        else if c = 0x0D then b @ [BS, CHR ''r'']
        else if c = 0x09 then b @ [BS, CHR ''t'']
        else b @ encodeRune c)
       cs"

definition writeEntry :: "string \<Rightarrow> string \<Rightarrow> string \<Rightarrow> string" where
  "writeEntry b k v =
     (let needsQuotes = ContainsAny v quoteChars;
          b = b @ k;
          b = b @ ''='';
          b = (if needsQuotes then escapeLoop (b @ [DQ]) (runes v) else b @ v);
          b = (if needsQuotes then b @ [DQ] else b)
      in b @ [LF])"

fun writeSection :: "string \<Rightarrow> (string \<times> string) list \<Rightarrow> string" where
  "writeSection b [] = b"
| "writeSection b ((k, v) # kvs) = writeSection (writeEntry b k v) kvs"

text \<open>The second loop of \<^verbatim>\<open>WriteTo\<close>, over the sections in the order of the visit.\<close>

fun writeSections :: "(string \<Rightarrow> string list) \<Rightarrow> string \<Rightarrow> (string \<times> Section) list \<Rightarrow> string" where
  "writeSections kord b [] = b"
| "writeSections kord b ((n, s) # rest) =
     (if n = ''root'' \<or> dom s = {} then writeSections kord b rest
      else
        writeSections kord
          (writeSection (b @ ''['' @ n @ [CHR '']'', LF]) (rangeMap s (kord n)) @ [LF])
          rest)"

text \<open>\<open>WriteTo i ord kord\<close> is the text handed to the writer: \<open>ord\<close> is the order in which
  the sections are visited, \<open>kord n\<close> the order of the keys of section \<open>n\<close>.\<close>

definition WriteTo :: "Ini \<Rightarrow> string list \<Rightarrow> (string \<Rightarrow> string list) \<Rightarrow> string" where
  "WriteTo i ord kord =
     (let b = (case i ''root'' of
                 None \<Rightarrow> []
               | Some s \<Rightarrow>
                   if dom s \<noteq> {} then writeSection [] (rangeMap s (kord ''root'')) @ [LF]
                   else [])
      in writeSections kord b (rangeMap i ord))"

section \<open>Sequences of operations\<close>

text \<open>A caller's use of a document: any sequence of the mutating operations, applied from
  left to right. \<^verbatim>\<open>ReadFrom\<close> leaves the document as it is when it returns, with or without
  an error.\<close>

datatype operation =
    OpSet string string string
  | OpUnset string string
  | OpReadFrom string

fun applyOp :: "(nat \<Rightarrow> nat) \<Rightarrow> Ini \<Rightarrow> operation \<Rightarrow> Ini" where
  "applyOp U i (OpSet section key val) = Set U i section key val"
| "applyOp U i (OpUnset section key) = Unset U i section key"
| "applyOp U i (OpReadFrom source) = fst (ReadFrom U i source)"

definition run :: "(nat \<Rightarrow> nat) \<Rightarrow> operation list \<Rightarrow> Ini" where
  "run U ops = foldl (applyOp U) New ops"

text \<open>The invariant of the data model: no section entry without a key.\<close>

definition nonEmptySections :: "Ini \<Rightarrow> bool" where
  "nonEmptySections i = (\<forall>n s. i n = Some s \<longrightarrow> dom s \<noteq> {})"

section \<open>The rules of the specification\<close>

text \<open>
  The escape decoding as the specification words it, to compare with \<open>decodeLoop\<close>: the
  characters of the inner text are read from the left; a backslash and the character
  after it are replaced together (\<open>n\<close>, \<open>r\<close>, \<open>t\<close> and backslash by the character they
  name, a quote character by itself when it is the enclosing quote \<open>q\<close>, any other pair
  by itself), every other character is kept, and so is a backslash that ends the text.
\<close>

fun decodeEscapes :: "nat \<Rightarrow> nat list \<Rightarrow> nat list" where
  "decodeEscapes q [] = []"
| "decodeEscapes q [c] = [c]"
| "decodeEscapes q (c # d # cs) =
     (if c = 0x5C then
        (if d = 0x6E then 0x0A # decodeEscapes q cs
         else if d = 0x72 then 0x0D # decodeEscapes q cs
         else if d = 0x74 then 0x09 # decodeEscapes q cs
         else if d = 0x5C then 0x5C # decodeEscapes q cs
         else if (d = 0x22 \<or> d = 0x27) \<and> d = q then d # decodeEscapes q cs
         else 0x5C # d # decodeEscapes q cs)
      else c # decodeEscapes q (d # cs))"

text \<open>The escaping of one character inside double quotes, as the specification lists it:
  the text written for the character.\<close>

definition escapeChar :: "nat \<Rightarrow> string" where
  "escapeChar c =
     (if c = 0x22 then [BS, DQ]
      else if c = 0x5C then [BS, BS]
      else if c = 0x0A then [BS, CHR ''n'']
      else if c = 0x0D then [BS, CHR ''r'']
      else if c = 0x09 then [BS, CHR ''t'']
      else encodeRune c)"

text \<open>A string is well-formed UTF-8 when every character that the \<^verbatim>\<open>range\<close> loop reads is
  written back by \<^verbatim>\<open>WriteRune\<close> as the bytes it was read from.\<close>

fun utf8ok :: "string \<Rightarrow> bool" where
  "utf8ok [] = True"
| "utf8ok (c # cs) =
     (case decodeRune (c # cs) of
        (r, n) \<Rightarrow> encodeRune r = take n (c # cs) \<and> utf8ok (drop (n - 1) cs))"

section \<open>The text of a document, line by line\<close>

text \<open>
  The text that \<open>WriteTo\<close> builds, seen as the list of its lines (each is followed by a
  line feed in the text). These definitions serve the proofs about reading the text back.
\<close>

definition valueText :: "string \<Rightarrow> string" where
  "valueText v =
     (if ContainsAny v quoteChars then [DQ] @ concat (map escapeChar (runes v)) @ [DQ] else v)"

definition entryLine :: "string \<times> string \<Rightarrow> string" where
  "entryLine kv = fst kv @ ''='' @ valueText (snd kv)"

definition sectionLines :: "(string \<Rightarrow> string list) \<Rightarrow> string \<times> Section \<Rightarrow> string list" where
  "sectionLines kord ns =
     (''['' @ fst ns @ '']'') # map entryLine (rangeMap (snd ns) (kord (fst ns))) @ [[]]"

definition rootLines :: "Ini \<Rightarrow> (string \<Rightarrow> string list) \<Rightarrow> string list" where
  "rootLines i kord =
     (case i ''root'' of
        None \<Rightarrow> []
      | Some s \<Rightarrow> if dom s \<noteq> {} then map entryLine (rangeMap s (kord ''root'')) @ [[]] else [])"

definition namedSections :: "Ini \<Rightarrow> string list \<Rightarrow> (string \<times> Section) list" where
  "namedSections i ord = filter (\<lambda>ns. fst ns \<noteq> ''root'' \<and> dom (snd ns) \<noteq> {}) (rangeMap i ord)"

definition docLines :: "Ini \<Rightarrow> string list \<Rightarrow> (string \<Rightarrow> string list) \<Rightarrow> string list" where
  "docLines i ord kord = rootLines i kord @ concat (map (sectionLines kord) (namedSections i ord))"

definition unlines :: "string list \<Rightarrow> string" where
  "unlines ls = concat (map (\<lambda>l. l @ [LF]) ls)"

text \<open>
  The conditions of claim C1. A section name or key is not empty, holds no line feed and
  is left unchanged by trimming and by lower-casing; a key moreover holds no equals sign
  and does not start with a semicolon or a hash. A value is \<open>valueOK\<close> when the serializer
  quotes it and it is well-formed UTF-8, or the serializer writes it bare and trimming
  leaves it unchanged.
\<close>

definition nameOK :: "(nat \<Rightarrow> nat) \<Rightarrow> string \<Rightarrow> bool" where
  "nameOK U n = (n \<noteq> [] \<and> LF \<notin> set n \<and> TrimSpace n = n \<and> ToLower U n = n)"

definition keyOK :: "(nat \<Rightarrow> nat) \<Rightarrow> string \<Rightarrow> bool" where
  "keyOK U k = (nameOK U k \<and> CHR ''='' \<notin> set k \<and> hd k \<noteq> CHR '';'' \<and> hd k \<noteq> CHR ''#'')"

definition valueOK :: "string \<Rightarrow> bool" where
  "valueOK v = (if ContainsAny v quoteChars then utf8ok v else TrimSpace v = v)"

definition namesOK :: "(nat \<Rightarrow> nat) \<Rightarrow> Ini \<Rightarrow> bool" where
  "namesOK U i = (\<forall>n s. i n = Some s \<longrightarrow> nameOK U n \<and> (\<forall>k v. s k = Some v \<longrightarrow> keyOK U k))"

definition valuesOK :: "Ini \<Rightarrow> bool" where
  "valuesOK i = (\<forall>n s. i n = Some s \<longrightarrow> (\<forall>k v. s k = Some v \<longrightarrow> valueOK v))"

text \<open>The update of the document that a key line makes (the last branch of \<open>parseLine\<close>).\<close>

definition storeEntry :: "string \<Rightarrow> Ini \<Rightarrow> string \<times> string \<Rightarrow> Ini" where
  "storeEntry sec i kv =
     (case i sec of
        None \<Rightarrow> i(sec \<mapsto> Map.empty(fst kv \<mapsto> snd kv))
      | Some sectionMap \<Rightarrow> i(sec \<mapsto> sectionMap(fst kv \<mapsto> snd kv)))"

section \<open>Get, Set and Unset\<close>

text \<open>
  Claim C8. After \<open>Set i s k v\<close>, \<open>Get\<close> returns \<open>(v, True)\<close> for every pair of names
  \<open>s'\<close>, \<open>k'\<close> that lower-case to the same strings as \<open>s\<close> and \<open>k\<close>. The entry is stored
  under the lower-cased names: the section \<open>ToLower s\<close> is the only section entry that
  \<open>Set\<close> adds, and it holds \<open>v\<close> under \<open>ToLower k\<close>.
\<close>

theorem Get_after_Set:
  assumes "ToLower U s' = ToLower U s" and "ToLower U k' = ToLower U k"
  shows "Get U (Set U i s k v) s' k' = (v, True)
         \<and> dom (Set U i s k v) = insert (ToLower U s) (dom i)
         \<and> (\<exists>m. Set U i s k v (ToLower U s) = Some m \<and> m (ToLower U k) = Some v)"
  using assms by (auto simp: Get_def Set_def Let_def split: option.splits)

theorem Get_after_Set_witness:
  "ToLower latin1Lower [CHR 0xC3, CHR 0x89, CHR ''S''] = ToLower latin1Lower [CHR 0xC3, CHR 0xA9, CHR ''s'']
   \<and> ToLower latin1Lower ''KEY'' = ToLower latin1Lower ''Key''
   \<and> Get latin1Lower (Set latin1Lower New [CHR 0xC3, CHR 0xA9, CHR ''s''] ''Key'' ''v'')
         [CHR 0xC3, CHR 0x89, CHR ''S''] ''KEY'' = (''v'', True)"
proof -
  have a: "ToLower latin1Lower [CHR 0xC3, CHR 0x89, CHR ''S'']
           = ToLower latin1Lower [CHR 0xC3, CHR 0xA9, CHR ''s'']"
    by code_simp
  have b: "ToLower latin1Lower ''KEY'' = ToLower latin1Lower ''Key''"
    by (simp add: ToLower_def)
  show ?thesis using a b Get_after_Set [OF a b, of New "''v''"] by simp
qed

text \<open>
  Claim C10, as the code has it. \<open>Unset\<close> leaves the document unchanged when the
  lower-cased section is absent, and when it is present with at least one key and the
  lower-cased key is not among its keys.
\<close>

theorem Unset_absent_noop:
  assumes "i (ToLower U section) = None
           \<or> (\<exists>s. i (ToLower U section) = Some s \<and> dom s \<noteq> {} \<and> s (ToLower U key) = None)"
  shows "Unset U i section key = i"
  using assms by (auto simp: Unset_def Let_def fun_upd_idem split: option.splits)

theorem Unset_absent_noop_witness:
  "Unset latin1Lower (Set latin1Lower New ''a'' ''k'' ''v'') ''A'' ''other''
     = Set latin1Lower New ''a'' ''k'' ''v''
   \<and> Unset latin1Lower (Set latin1Lower New ''a'' ''k'' ''v'') ''b'' ''k''
     = Set latin1Lower New ''a'' ''k'' ''v''"
proof -
  have 1: "Set latin1Lower New ''a'' ''k'' ''v'' (ToLower latin1Lower ''A'') = None
     \<or> (\<exists>s. Set latin1Lower New ''a'' ''k'' ''v'' (ToLower latin1Lower ''A'') = Some s
            \<and> dom s \<noteq> {} \<and> s (ToLower latin1Lower ''other'') = None)"
    by (simp add: Set_def New_def ToLower_def)
  have 2: "Set latin1Lower New ''a'' ''k'' ''v'' (ToLower latin1Lower ''b'') = None
     \<or> (\<exists>s. Set latin1Lower New ''a'' ''k'' ''v'' (ToLower latin1Lower ''b'') = Some s
            \<and> dom s \<noteq> {} \<and> s (ToLower latin1Lower ''k'') = None)"
    by (simp add: Set_def New_def ToLower_def)
  show ?thesis
    using Unset_absent_noop [of "Set latin1Lower New ''a'' ''k'' ''v''" latin1Lower "''A''" "''other''", OF 1]
          Unset_absent_noop [of "Set latin1Lower New ''a'' ''k'' ''v''" latin1Lower "''b''" "''k''", OF 2]
    by simp
qed

text \<open>
  Claim C10, as stated, fails on a document that holds a section entry without keys
  (a value of the exported map type that \<^verbatim>\<open>WriteTo\<close> also expects, since it skips such
  sections): \<open>Unset\<close> of an absent key removes that section entry.
\<close>

theorem Unset_absent_counterexample:
  "[''s'' \<mapsto> (Map.empty :: Section)] (ToLower latin1Lower ''s'') = Some Map.empty
   \<and> (Map.empty :: Section) (ToLower latin1Lower ''k'') = None
   \<and> Unset latin1Lower [''s'' \<mapsto> (Map.empty :: Section)] ''s'' ''k'' \<noteq> [''s'' \<mapsto> Map.empty]
   \<and> \<not> HasSection latin1Lower (Unset latin1Lower [''s'' \<mapsto> (Map.empty :: Section)] ''s'' ''k'') ''s''"
  by (simp add: Unset_def HasSection_def ToLower_def fun_eq_iff)

section \<open>The invariant of the data model\<close>

lemma nonEmptySections_New: "nonEmptySections New"
  by (simp add: nonEmptySections_def New_def)

lemma nonEmptySections_Set: "nonEmptySections i \<Longrightarrow> nonEmptySections (Set U i s k v)"
  by (auto simp: nonEmptySections_def Set_def Let_def split: option.splits if_splits)

lemma nonEmptySections_Unset: "nonEmptySections i \<Longrightarrow> nonEmptySections (Unset U i s k)"
  by (auto simp: nonEmptySections_def Unset_def Let_def split: option.splits if_splits)

lemma parseLine_doc:
  "parseLine U n t sec i = Inr (sec', i') \<Longrightarrow> i' = i \<or> (\<exists>m k v. i' = i(sec \<mapsto> m(k \<mapsto> v)))"
  unfolding parseLine_def Let_def
  by (auto split: option.splits if_splits)

lemma nonEmptySections_parseLine:
  assumes "nonEmptySections i" and "parseLine U n t sec i = Inr (sec', i')"
  shows "nonEmptySections i'"
proof -
  from parseLine_doc [OF assms(2)] show ?thesis
  proof
    assume "i' = i" with assms(1) show ?thesis by simp
  next
    assume "\<exists>m k v. i' = i(sec \<mapsto> m(k \<mapsto> v))"
    then obtain m k v where "i' = i(sec \<mapsto> m(k \<mapsto> v))" by blast
    with assms(1) show ?thesis
      unfolding nonEmptySections_def by (auto split: if_splits)
  qed
qed

lemma nonEmptySections_readLoop:
  "nonEmptySections i \<Longrightarrow> nonEmptySections (fst (readLoop U toks n b sec i))"
proof (induction toks arbitrary: n b sec i)
  case Nil
  then show ?case by simp
next
  case (Cons tok toks)
  then show ?case
    by (auto simp: Let_def split: sum.splits dest: nonEmptySections_parseLine)
qed

lemma nonEmptySections_applyOp: "nonEmptySections i \<Longrightarrow> nonEmptySections (applyOp U i x)"
  by (cases x) (simp_all add: nonEmptySections_Set nonEmptySections_Unset
      nonEmptySections_readLoop ReadFrom_def)

lemma nonEmptySections_foldl:
  "nonEmptySections i \<Longrightarrow> nonEmptySections (foldl (applyOp U) i ops)"
  by (induction ops arbitrary: i) (simp_all add: nonEmptySections_applyOp)

text \<open>
  Claim C4. Every document reached from \<open>New\<close> by a sequence of \<open>Set\<close>, \<open>Unset\<close> and
  \<open>ReadFrom\<close> has no section entry without a key. \<open>Unset\<close> of the only key of a section
  removes the section entry, so that \<open>HasSection\<close> is false afterwards. A header line (a
  trimmed line of at least two characters that starts with an opening and ends with a
  closing bracket) that the parser accepts leaves the document as it was: the section is
  created by the first key line only.
\<close>

theorem sections_never_empty:
  "nonEmptySections (run U ops)
   \<and> ((\<exists>m. i (ToLower U s) = Some m \<and> dom m = {ToLower U k}) \<longrightarrow> \<not> HasSection U (Unset U i s k) s)
   \<and> (2 \<le> length (TrimSpace t) \<and> hd (TrimSpace t) = CHR ''['' \<and> last (TrimSpace t) = CHR '']''
        \<and> parseLine U n t sec i = Inr (sec', i') \<longrightarrow> i' = i)"
proof (intro conjI)
  show "nonEmptySections (run U ops)"
    unfolding run_def by (rule nonEmptySections_foldl [OF nonEmptySections_New])
  show "(\<exists>m. i (ToLower U s) = Some m \<and> dom m = {ToLower U k}) \<longrightarrow> \<not> HasSection U (Unset U i s k) s"
  proof
    assume "\<exists>m. i (ToLower U s) = Some m \<and> dom m = {ToLower U k}"
    then obtain m where m: "i (ToLower U s) = Some m" "dom m = {ToLower U k}" by blast
    then have "dom (m(ToLower U k := None)) = {}" by simp
    with m show "\<not> HasSection U (Unset U i s k) s"
      by (simp add: Unset_def HasSection_def Let_def del: dom_eq_empty_conv)
  qed
  show "2 \<le> length (TrimSpace t) \<and> hd (TrimSpace t) = CHR ''['' \<and> last (TrimSpace t) = CHR '']''
        \<and> parseLine U n t sec i = Inr (sec', i') \<longrightarrow> i' = i"
    by (auto simp: parseLine_def Let_def split: if_splits)
qed

lemmas eval_defs = ReadFrom_def maxTokenSize_def dropCR_def parseLine_def TrimSpace_def
  decodeLastRune_def isSpace_def runeStart_def RuneError_def ToLower_def unquote_def Get_def
  New_def Set_def Unset_def HasSection_def Let_def

theorem sections_never_empty_witness:
  "nonEmptySections (run latin1Lower [OpSet ''a'' ''k'' ''v'', OpReadFrom ''[b]'', OpUnset ''A'' ''K''])
   \<and> run latin1Lower [OpSet ''a'' ''k'' ''v'', OpReadFrom ''[b]'', OpUnset ''A'' ''K''] = New
   \<and> \<not> HasSection latin1Lower (Unset latin1Lower (Set latin1Lower New ''a'' ''k'' ''v'') ''a'' ''k'') ''a''
   \<and> parseLine latin1Lower 1 ''[b]'' ''root'' New = Inr (''b'', New)"
proof -
  have 1: "\<exists>m. Set latin1Lower New ''a'' ''k'' ''v'' (ToLower latin1Lower ''a'') = Some m
               \<and> dom m = {ToLower latin1Lower ''k''}"
    by (simp add: eval_defs)
  have 2: "parseLine latin1Lower 1 ''[b]'' ''root'' New = Inr (''b'', New)"
    by (simp add: eval_defs)
  have 3: "run latin1Lower [OpSet ''a'' ''k'' ''v'', OpReadFrom ''[b]'', OpUnset ''A'' ''K''] = New"
    by (simp add: run_def eval_defs)
  show ?thesis
    using sections_never_empty [of latin1Lower
       "[OpSet ''a'' ''k'' ''v'', OpReadFrom ''[b]'', OpUnset ''A'' ''K'']"
       "Set latin1Lower New ''a'' ''k'' ''v''" "''a''" "''k''" "''[b]''" 1 "''root''" "''b''" New] 1 2 3
    by simp
qed

section \<open>Facts about the string functions\<close>

subsection \<open>Decoding a character\<close>

lemma decodeRune_ascii: "byte c < 0x80 \<Longrightarrow> decodeRune (c # cs) = (byte c, 1)"
  by simp

lemma decodeRune_width:
  "decodeRune (c # cs) = (r, n) \<Longrightarrow> 1 \<le> n \<and> n \<le> length (c # cs)"
  by (cases cs; cases "tl cs"; cases "tl (tl cs)") (auto simp: Let_def split: if_splits)

lemma decodeRune_stable:
  "decodeRune (c # cs) = (r, n) \<Longrightarrow> (r, n) \<noteq> (RuneError, 1) \<Longrightarrow>
   decodeRune (take n (c # cs) @ z) = (r, n)"
  by (cases cs; cases "tl cs"; cases "tl (tl cs)") (auto simp: Let_def split: if_splits)

lemma decodeRune_bytes:
  "decodeRune (c # cs) = (r, n) \<Longrightarrow> 2 \<le> n \<Longrightarrow>
   runeStart c \<and> (\<forall>b\<in>set (take n (c # cs)). 0x80 \<le> byte b) \<and> (\<forall>b\<in>set (take (n - 1) cs). \<not> runeStart b)"
  by (cases cs; cases "tl cs"; cases "tl (tl cs)") (auto simp: Let_def runeStart_def split: if_splits)

lemma decodeRune_append_ascii:
  "byte a < 0x80 \<Longrightarrow> decodeRune ((c # cs) @ a # z) = decodeRune (c # cs)"
  by (cases cs; cases "tl cs"; cases "tl (tl cs)") (auto simp: Let_def split: if_splits)

declare decodeRune.simps(2) [simp del]

subsection \<open>Trimming on the left\<close>

lemma trimLeft_length: "length (trimLeft s) \<le> length s"
proof (induction s rule: trimLeft.induct)
  case 1 show ?case by simp
next
  case (2 c cs)
  obtain r n where d: "decodeRune (c # cs) = (r, n)" by (cases "decodeRune (c # cs)")
  show ?case
  proof (cases "isSpace r")
    case True
    from "2.IH" [OF d [symmetric] True] have "length (trimLeft (drop (n - 1) cs)) \<le> length cs"
      by simp
    with d True show ?thesis by simp
  next
    case False with d show ?thesis by simp
  qed
qed

lemma trimLeft_step:
  "decodeRune (c # cs) = (r, n) \<Longrightarrow>
   trimLeft (c # cs) = (if isSpace r then trimLeft (drop n (c # cs)) else c # cs)"
  using decodeRune_width [of c cs r n] by (cases n) auto

lemma trimLeft_id_iff: "trimLeft (c # cs) = c # cs \<longleftrightarrow> \<not> isSpace (fst (decodeRune (c # cs)))"
proof -
  obtain r n where d: "decodeRune (c # cs) = (r, n)" by (cases "decodeRune (c # cs)")
  have "trimLeft (drop (n - 1) cs) \<noteq> c # cs"
    using trimLeft_length [of "drop (n - 1) cs"] by (auto simp: not_less_eq_eq)
  with d show ?thesis by (auto simp: trimLeft.simps(2))
qed

declare trimLeft.simps(2) [simp del]

lemma trimLeft_step':
  "decodeRune (c # cs) = (r, n) \<Longrightarrow>
   trimLeft (c # cs) = (if isSpace r then trimLeft (drop (n - 1) cs) else c # cs)"
  by (simp add: trimLeft.simps(2))

lemma take_drop_append: "xs @ z = take n xs @ (drop n xs @ z)"
  by (simp only: append_assoc [symmetric] append_take_drop_id)

lemma trimLeft_solid: "byte c < 0x80 \<Longrightarrow> \<not> isSpace (byte c) \<Longrightarrow> trimLeft (c # s) = c # s"
  by (simp add: trimLeft_id_iff decodeRune_ascii)

lemma isSpace_RuneError [simp]: "\<not> isSpace RuneError"
  by (simp add: isSpace_def RuneError_def)

lemma trimLeft_append: "trimLeft p = [] \<Longrightarrow> trimLeft (p @ z) = trimLeft z"
proof (induction p rule: trimLeft.induct)
  case 1 show ?case by simp
next
  case (2 c cs)
  obtain r n where d: "decodeRune (c # cs) = (r, n)" by (cases "decodeRune (c # cs)")
  from "2.prems" have sp: "isSpace r" and rest: "trimLeft (drop (n - 1) cs) = []"
    unfolding trimLeft_step' [OF d] by (auto split: if_splits)
  from sp have ne: "(r, n) \<noteq> (RuneError, 1)" by auto
  from decodeRune_width [OF d] have n: "1 \<le> n" "n \<le> length (c # cs)" by auto
  have "decodeRune ((c # cs) @ z) = decodeRune (take n (c # cs) @ (drop n (c # cs) @ z))"
    by (simp only: take_drop_append [symmetric])
  also have "\<dots> = (r, n)" by (rule decodeRune_stable [OF d ne])
  finally have d': "decodeRune (c # (cs @ z)) = (r, n)" by simp
  have "trimLeft ((c # cs) @ z) = trimLeft (drop n (c # (cs @ z)))"
    using trimLeft_step [OF d'] sp by simp
  also have "drop n (c # (cs @ z)) = drop (n - 1) cs @ z"
    using n by (cases n) auto
  also have "trimLeft (drop (n - 1) cs @ z) = trimLeft z"
    by (rule "2.IH" [OF d [symmetric] sp rest])
  finally show ?case .
qed

lemma trimLeft_decomp:
  "\<exists>p. t = p @ trimLeft t \<and> trimLeft p = []
       \<and> (\<forall>b\<in>set p. \<not> (byte b < 0x80 \<and> \<not> isSpace (byte b)))"
proof (induction t rule: trimLeft.induct)
  case 1 show ?case by simp
next
  case (2 c cs)
  obtain r n where d: "decodeRune (c # cs) = (r, n)" by (cases "decodeRune (c # cs)")
  show ?case
  proof (cases "isSpace r")
    case False
    with d have "trimLeft (c # cs) = c # cs" by (simp add: trimLeft_step')
    then show ?thesis by simp
  next
    case True
    from True have ne: "(r, n) \<noteq> (RuneError, 1)" by auto
    from decodeRune_width [OF d] have n: "1 \<le> n" "n \<le> length (c # cs)" by auto
    from "2.IH" [OF d [symmetric] True] obtain p where
      p: "drop (n - 1) cs = p @ trimLeft (drop (n - 1) cs)" "trimLeft p = []"
         "\<forall>b\<in>set p. \<not> (byte b < 0x80 \<and> \<not> isSpace (byte b))"
      by blast
    have dr: "drop n (c # cs) = drop (n - 1) cs" using n by (cases n) auto
    have tl: "trimLeft (c # cs) = trimLeft (drop (n - 1) cs)" using d True by (simp add: trimLeft_step')
    let ?h = "take n (c # cs)"
    have dh: "decodeRune (?h @ p) = (r, n)" by (rule decodeRune_stable [OF d ne])
    have hne: "?h \<noteq> []" using n by (cases n) auto
    then obtain h0 hs where h: "?h @ p = h0 # hs" by (cases "?h @ p") auto
    have "trimLeft (?h @ p) = trimLeft (drop n (?h @ p))"
      using trimLeft_step [of h0 hs r n] dh True h by simp
    also have "drop n (?h @ p) = p" using n by simp
    finally have 1: "trimLeft (?h @ p) = []" using p(2) by simp
    have 2: "c # cs = (?h @ p) @ trimLeft (c # cs)"
    proof -
      have "c # cs = ?h @ drop n (c # cs)" by simp
      also have "\<dots> = ?h @ p @ trimLeft (drop (n - 1) cs)" using dr p(1) by simp
      finally show ?thesis using tl by simp
    qed
    have 3: "\<forall>b\<in>set ?h. \<not> (byte b < 0x80 \<and> \<not> isSpace (byte b))"
    proof (cases "2 \<le> n")
      case True
      from decodeRune_bytes [OF d True] show ?thesis by fastforce
    next
      case False
      with n have n1: "n = 1" by simp
      show ?thesis
      proof (cases "byte c < 0x80")
        case True
        with d have "r = byte c" by (simp add: decodeRune_ascii)
        with \<open>isSpace r\<close> n1 show ?thesis by simp
      next
        case False
        with n1 show ?thesis by simp
      qed
    qed
    from 1 2 3 p(3) show ?thesis
      by (intro exI [of _ "?h @ p"]) auto
  qed
qed

lemma trimLeft_idem: "trimLeft (trimLeft t) = trimLeft t"
proof (induction t rule: trimLeft.induct)
  case 1 show ?case by simp
next
  case (2 c cs)
  obtain r n where d: "decodeRune (c # cs) = (r, n)" by (cases "decodeRune (c # cs)")
  show ?case
  proof (cases "isSpace r")
    case True
    with "2.IH" [OF d [symmetric] True] d show ?thesis by (simp add: trimLeft_step')
  next
    case False
    with d have "trimLeft (c # cs) = c # cs" by (simp add: trimLeft_step')
    then show ?thesis by simp
  qed
qed

lemma trimLeft_prefix:
  assumes "trimLeft (l @ q) = l @ q" and "l \<noteq> []"
  shows "trimLeft l = l"
proof -
  from assms(2) obtain c cs where l: "l = c # cs" by (cases l) auto
  obtain r n where d: "decodeRune (c # cs) = (r, n)" by (cases "decodeRune (c # cs)")
  show ?thesis
  proof (cases "(r, n) = (RuneError, 1)")
    case True
    with d show ?thesis unfolding l by (simp add: trimLeft_id_iff)
  next
    case False
    from decodeRune_width [OF d] have n: "n \<le> length (c # cs)" by simp
    have "decodeRune (take n (c # cs) @ (drop n (c # cs) @ q)) = (r, n)"
      by (rule decodeRune_stable [OF d False])
    then have "decodeRune (c # (cs @ q)) = (r, n)"
      by (simp only: take_drop_append [symmetric] append_Cons)
    moreover from assms(1) have "\<not> isSpace (fst (decodeRune (c # (cs @ q))))"
      unfolding l by (simp add: trimLeft_id_iff)
    ultimately have "\<not> isSpace r" by simp
    with d show ?thesis unfolding l by (simp add: trimLeft_id_iff)
  qed
qed

lemma trimLeft_ext:
  assumes "trimLeft k = k" and "k \<noteq> []" and "byte a < 0x80"
  shows "trimLeft (k @ a # z) = k @ a # z"
proof -
  from assms(2) obtain c cs where k: "k = c # cs" by (cases k) auto
  from assms(1) have "\<not> isSpace (fst (decodeRune (c # cs)))"
    unfolding k by (simp add: trimLeft_id_iff)
  moreover have "decodeRune ((c # cs) @ a # z) = decodeRune (c # cs)"
    by (rule decodeRune_append_ascii [OF assms(3)])
  ultimately have "\<not> isSpace (fst (decodeRune (c # (cs @ a # z))))" by simp
  then show ?thesis unfolding k by (simp add: trimLeft_id_iff)
qed

subsection \<open>Decoding the last character\<close>

lemma lastStart_bounds: "lastStart bs = Some k \<Longrightarrow> 2 \<le> k \<and> k \<le> length bs + 1"
  by (cases bs rule: lastStart.cases) (auto split: if_splits)

lemma lastStart_1: "runeStart b1 \<Longrightarrow> lastStart (b1 # bs) = Some 2"
  by (cases "b1 # bs" rule: lastStart.cases) auto

lemma lastStart_2: "\<not> runeStart b1 \<Longrightarrow> runeStart b2 \<Longrightarrow> lastStart (b1 # b2 # bs) = Some 3"
  by (cases "b1 # b2 # bs" rule: lastStart.cases) auto

lemma lastStart_3:
  "\<not> runeStart b1 \<Longrightarrow> \<not> runeStart b2 \<Longrightarrow> runeStart b3 \<Longrightarrow>
   lastStart (b1 # b2 # b3 # bs) = Some 4"
  by simp

lemma decodeLastRune_snoc_ascii: "byte c < 0x80 \<Longrightarrow> decodeLastRune (s @ [c]) = (byte c, 1)"
  by (simp add: decodeLastRune_def)

lemma decodeLastRune_sound:
  assumes "decodeLastRune s = (r, n)" and "s \<noteq> []"
  shows "1 \<le> n \<and> n \<le> length s
         \<and> ((r, n) = (RuneError, 1) \<or> decodeRune (drop (length s - n) s) = (r, n))"
proof -
  from assms(2) obtain l0 prev where rs: "rev s = l0 # prev" by (cases "rev s") auto
  then have s: "s = rev prev @ [l0]" by (metis rev_rev_ident rev.simps(2))
  show ?thesis
  proof (cases "byte l0 < 0x80")
    case True
    with assms(1) rs have "r = byte l0" "n = 1" by (auto simp: decodeLastRune_def)
    with True s show ?thesis by (simp add: decodeRune_ascii)
  next
    case False
    show ?thesis
    proof (cases "lastStart prev")
      case None
      with assms(1) rs False have "(r, n) = (RuneError, 1)" by (auto simp: decodeLastRune_def)
      with assms(2) show ?thesis by (cases s) auto
    next
      case (Some k)
      from lastStart_bounds [OF Some] s have k: "2 \<le> k" "k \<le> length s" by auto
      obtain r' w where d: "decodeRune (drop (length s - k) s) = (r', w)"
        by (cases "decodeRune (drop (length s - k) s)")
      show ?thesis
      proof (cases "w = k")
        case True
        with assms(1) rs False Some d have "r = r'" "n = k" by (auto simp: decodeLastRune_def)
        with d True k show ?thesis by simp
      next
        case False
        with assms(1) rs \<open>\<not> byte l0 < 0x80\<close> Some d have "(r, n) = (RuneError, 1)"
          by (auto simp: decodeLastRune_def)
        with assms(2) show ?thesis by (cases s) auto
      qed
    qed
  qed
qed

lemma decodeLastRune_complete:
  assumes "decodeRune z = (r, length z)" and "z \<noteq> []" and "(r, length z) \<noteq> (RuneError, 1)"
  shows "decodeLastRune (w @ z) = (r, length z)"
proof -
  from assms(2) obtain c cs where z: "z = c # cs" by (cases z) auto
  from assms(1) have d: "decodeRune (c # cs) = (r, length (c # cs))" unfolding z .
  show ?thesis
  proof (cases "cs = []")
    case True
    have "byte c < 0x80"
    proof (rule ccontr)
      assume "\<not> byte c < 0x80"
      then have "decodeRune [c] = (RuneError, 1)"
        by (simp add: decodeRune.simps(2) Let_def)
      with d True assms(3) z show False by simp
    qed
    with d True have "r = byte c" by (simp add: decodeRune_ascii)
    with \<open>byte c < 0x80\<close> True z show ?thesis by (simp add: decodeLastRune_snoc_ascii)
  next
    case False
    then have n2: "2 \<le> length (c # cs)" by (cases cs) auto
    from decodeRune_bytes [OF d n2]
    have st: "runeStart c" and hi: "\<forall>b\<in>set (c # cs). 0x80 \<le> byte b"
      and ct: "\<forall>b\<in>set cs. \<not> runeStart b" by auto
    from decodeRune_width [OF d] have "length (c # cs) \<le> 4"
      using d by (auto simp: decodeRune.simps(2) Let_def split: if_splits)
    with False consider
        b1 where "cs = [b1]"
      | b1 b2 where "cs = [b1, b2]"
      | b1 b2 b3 where "cs = [b1, b2, b3]"
      by (cases cs; cases "tl cs"; cases "tl (tl cs)"; cases "tl (tl (tl cs))") auto
    then have ls: "\<exists>l0 prev. rev (w @ z) = l0 # prev \<and> \<not> byte l0 < 0x80
                     \<and> lastStart prev = Some (length z)"
    proof cases
      case 1
      with st ct hi z show ?thesis by (auto simp: lastStart_1)
    next
      case 2
      with st ct hi z show ?thesis by (auto simp: lastStart_2)
    next
      case 3
      with st ct hi z show ?thesis by (auto simp: lastStart_3)
    qed
    then obtain l0 prev where l: "rev (w @ z) = l0 # prev" "\<not> byte l0 < 0x80"
      "lastStart prev = Some (length z)" by blast
    have "drop (length (w @ z) - length z) (w @ z) = z" by simp
    with l assms(1) show ?thesis
      by (simp add: decodeLastRune_def)
  qed
qed

subsection \<open>Trimming on the right\<close>

lemma trimRight_step:
  assumes "s \<noteq> []" and "decodeLastRune s = (r, n)"
  shows "trimRight s = (if isSpace r then trimRight (take (length s - n) s) else s)"
proof -
  from assms(1) obtain c cs where s: "s = c # cs" by (cases s) auto
  from decodeLastRune_sound [OF assms(2,1)] have n: "1 \<le> n" by simp
  have "take (length s - n) (butlast s) = take (length s - n) s"
    using n by (simp add: butlast_conv_take min_def)
  with assms(2) show ?thesis unfolding s by simp
qed

declare trimRight.simps(2) [simp del]

lemma trimRight_length: "length (trimRight s) \<le> length s"
proof (induction s rule: length_induct)
  case (1 s)
  show ?case
  proof (cases "s = []")
    case True then show ?thesis by simp
  next
    case False
    obtain r n where d: "decodeLastRune s = (r, n)" by (cases "decodeLastRune s")
    from decodeLastRune_sound [OF d False] have n: "1 \<le> n" "n \<le> length s" by auto
    show ?thesis
    proof (cases "isSpace r")
      case True
      have "length (take (length s - n) s) < length s" using n False by simp
      with 1 have "length (trimRight (take (length s - n) s)) \<le> length (take (length s - n) s)"
        by blast
      with trimRight_step [OF False d] True show ?thesis by simp
    next
      case False
      with trimRight_step [OF \<open>s \<noteq> []\<close> d] show ?thesis by simp
    qed
  qed
qed

lemma trimRight_id_iff:
  assumes "s \<noteq> []"
  shows "trimRight s = s \<longleftrightarrow> \<not> isSpace (fst (decodeLastRune s))"
proof -
  obtain r n where d: "decodeLastRune s = (r, n)" by (cases "decodeLastRune s")
  from decodeLastRune_sound [OF d assms] have n: "1 \<le> n" "n \<le> length s" by auto
  have "length (trimRight (take (length s - n) s)) < length s"
    using trimRight_length [of "take (length s - n) s"] n assms by simp
  then have "trimRight (take (length s - n) s) \<noteq> s" by auto
  with trimRight_step [OF assms d] d show ?thesis by auto
qed

lemma trimRight_solid:
  "byte c < 0x80 \<Longrightarrow> \<not> isSpace (byte c) \<Longrightarrow> trimRight (s @ [c]) = s @ [c]"
  by (simp add: trimRight_id_iff decodeLastRune_snoc_ascii)

lemma decodeLastRune_space_bytes:
  assumes "decodeLastRune s = (r, n)" and "s \<noteq> []" and "isSpace r"
  shows "\<forall>b\<in>set (drop (length s - n) s). \<not> (byte b < 0x80 \<and> \<not> isSpace (byte b))"
proof -
  from decodeLastRune_sound [OF assms(1,2)] assms(3)
  have n: "1 \<le> n" "n \<le> length s" and d: "decodeRune (drop (length s - n) s) = (r, n)"
    by auto
  let ?z = "drop (length s - n) s"
  have lz: "length ?z = n" using n by simp
  then obtain c cs where z: "?z = c # cs" using n by (cases ?z) auto
  show ?thesis
  proof (cases "2 \<le> n")
    case True
    from decodeRune_bytes [OF d [unfolded z] True] lz z show ?thesis by fastforce
  next
    case False
    have "length (c # cs) = n" using lz unfolding z .
    with False n have "length cs = 0" by (simp del: length_0_conv)
    then have cs: "cs = []" by simp
    show ?thesis
    proof (cases "byte c < 0x80")
      case True
      with d z have "r = byte c" by (simp add: decodeRune_ascii)
      with assms(3) z cs show ?thesis by simp
    next
      case False
      with z cs show ?thesis by simp
    qed
  qed
qed

lemma trimRight_decomp:
  "\<exists>q. s = trimRight s @ q \<and> (\<forall>b\<in>set q. \<not> (byte b < 0x80 \<and> \<not> isSpace (byte b)))"
proof (induction s rule: length_induct)
  case (1 s)
  show ?case
  proof (cases "s = []")
    case True then show ?thesis by simp
  next
    case False
    obtain r n where d: "decodeLastRune s = (r, n)" by (cases "decodeLastRune s")
    from decodeLastRune_sound [OF d False] have n: "1 \<le> n" "n \<le> length s" by auto
    show ?thesis
    proof (cases "isSpace r")
      case True
      let ?t = "take (length s - n) s"
      have "length ?t < length s" using n False by simp
      with 1 obtain q where q: "?t = trimRight ?t @ q"
        "\<forall>b\<in>set q. \<not> (byte b < 0x80 \<and> \<not> isSpace (byte b))" by blast
      have tr: "trimRight s = trimRight ?t" using trimRight_step [OF False d] True by simp
      have "s = ?t @ drop (length s - n) s" by simp
      then have "s = trimRight s @ (q @ drop (length s - n) s)"
        using q(1) tr by (metis append_assoc)
      moreover have "\<forall>b\<in>set (q @ drop (length s - n) s). \<not> (byte b < 0x80 \<and> \<not> isSpace (byte b))"
        using q(2) decodeLastRune_space_bytes [OF d False True] by auto
      ultimately show ?thesis by blast
    next
      case False
      with trimRight_step [OF \<open>s \<noteq> []\<close> d] show ?thesis by simp
    qed
  qed
qed

lemma trimRight_idem: "trimRight (trimRight s) = trimRight s"
proof (induction s rule: length_induct)
  case (1 s)
  show ?case
  proof (cases "s = []")
    case True then show ?thesis by simp
  next
    case False
    obtain r n where d: "decodeLastRune s = (r, n)" by (cases "decodeLastRune s")
    from decodeLastRune_sound [OF d False] have n: "1 \<le> n" "n \<le> length s" by auto
    show ?thesis
    proof (cases "isSpace r")
      case True
      have "length (take (length s - n) s) < length s" using n False by simp
      with 1 have "trimRight (trimRight (take (length s - n) s)) = trimRight (take (length s - n) s)"
        by blast
      with trimRight_step [OF False d] True show ?thesis by simp
    next
      case False
      with trimRight_step [OF \<open>s \<noteq> []\<close> d] show ?thesis by simp
    qed
  qed
qed

lemma trimRight_Nil_first:
  "trimRight y = [] \<Longrightarrow> y \<noteq> [] \<Longrightarrow> isSpace (fst (decodeRune y))"
proof (induction y rule: length_induct)
  case (1 y)
  obtain r n where d: "decodeLastRune y = (r, n)" by (cases "decodeLastRune y")
  from decodeLastRune_sound [OF d "1.prems"(2)] have n: "1 \<le> n" "n \<le> length y"
    and dd: "(r, n) = (RuneError, 1) \<or> decodeRune (drop (length y - n) y) = (r, n)" by auto
  from "1.prems" trimRight_step [OF "1.prems"(2) d]
  have sp: "isSpace r" and tr: "trimRight (take (length y - n) y) = []"
    by (auto split: if_splits)
  from sp dd have dz: "decodeRune (drop (length y - n) y) = (r, n)" by auto
  let ?t = "take (length y - n) y"
  show ?case
  proof (cases "?t = []")
    case True
    then have "length y - n = 0" using "1.prems"(2) by simp
    then have "drop (length y - n) y = y" by simp
    with dz sp show ?thesis by simp
  next
    case False
    have "length ?t < length y" using n "1.prems"(2) by simp
    with "1.IH" tr False have f: "isSpace (fst (decodeRune ?t))" by blast
    from False obtain c cs where t: "?t = c # cs" by (cases ?t) auto
    obtain r' n' where d': "decodeRune (c # cs) = (r', n')" by (cases "decodeRune (c # cs)")
    with f t have sp': "isSpace r'" by simp
    then have ne: "(r', n') \<noteq> (RuneError, 1)" by auto
    have "decodeRune (take n' (c # cs) @ (drop n' (c # cs) @ drop (length y - n) y)) = (r', n')"
      by (rule decodeRune_stable [OF d' ne])
    then have "decodeRune (?t @ drop (length y - n) y) = (r', n')"
      unfolding t by (simp only: take_drop_append [symmetric])
    then have "decodeRune y = (r', n')" by simp
    with sp' show ?thesis by simp
  qed
qed

lemma trimRight_ext:
  assumes "trimRight v = v" and "v \<noteq> []" and "byte a < 0x80"
  shows "trimRight (pre @ a # v) = pre @ a # v"
proof -
  let ?s = "pre @ a # v"
  have ne: "?s \<noteq> []" by simp
  obtain r n where d: "decodeLastRune ?s = (r, n)" by (cases "decodeLastRune ?s")
  have "\<not> isSpace r"
  proof
    assume sp: "isSpace r"
    from decodeLastRune_sound [OF d ne] sp
    have n: "1 \<le> n" "n \<le> length ?s" and dz: "decodeRune (drop (length ?s - n) ?s) = (r, n)"
      by auto
    have nv: "n \<le> length v"
    proof (rule ccontr)
      assume "\<not> n \<le> length v"
      then have "a \<in> set (drop (length ?s - n) ?s)"
        by (simp add: drop_Cons' Suc_diff_le not_le)
      have "2 \<le> n" using \<open>\<not> n \<le> length v\<close> assms(2) by (cases v) auto
      from n obtain c cs where z: "drop (length ?s - n) ?s = c # cs"
        by (cases "drop (length ?s - n) ?s") auto
      have "length (c # cs) = n" using z n by (metis length_drop diff_diff_cancel)
      with decodeRune_bytes [OF dz [unfolded z] \<open>2 \<le> n\<close>]
      have "\<forall>b\<in>set (c # cs). 0x80 \<le> byte b" by simp
      moreover have "a \<in> set (c # cs)"
        using \<open>a \<in> set (drop (length ?s - n) ?s)\<close> unfolding z .
      ultimately have "0x80 \<le> byte a" by blast
      with assms(3) show False by simp
    qed
    then have z: "drop (length ?s - n) ?s = drop (length v - n) v"
      by (simp add: drop_Cons' Suc_diff_le)
    let ?z = "drop (length v - n) v"
    have lz: "length ?z = n" using nv by simp
    have zne: "?z \<noteq> []" using lz n by auto
    have "decodeLastRune (take (length v - n) v @ ?z) = (r, length ?z)"
    proof (rule decodeLastRune_complete)
      show "decodeRune ?z = (r, length ?z)" using dz z lz by simp
      show "?z \<noteq> []" by (rule zne)
      show "(r, length ?z) \<noteq> (RuneError, 1)" using sp by auto
    qed
    then have "decodeLastRune v = (r, n)" using lz by simp
    with sp assms(1,2) show False by (simp add: trimRight_id_iff)
  qed
  with d show ?thesis by (simp add: trimRight_id_iff)
qed

lemma trimRight_hd:
  assumes "byte c < 0x80" and "\<not> isSpace (byte c)"
  shows "\<exists>w. trimRight (c # rest) = c # w"
proof -
  obtain q where q: "c # rest = trimRight (c # rest) @ q"
    "\<forall>b\<in>set q. \<not> (byte b < 0x80 \<and> \<not> isSpace (byte b))"
    using trimRight_decomp [of "c # rest"] by blast
  show ?thesis
  proof (cases "trimRight (c # rest)")
    case Nil
    with q(1) have "c \<in> set q" by (metis append_Nil list.set_intros(1))
    with q(2) assms show ?thesis by blast
  next
    case (Cons x w)
    with q(1) have "x = c" by simp
    with Cons show ?thesis by simp
  qed
qed

lemma trimLeft_trimRight:
  assumes "trimLeft y = y"
  shows "trimLeft (trimRight y) = trimRight y"
proof (cases "trimRight y = []")
  case True then show ?thesis by simp
next
  case False
  obtain q where q: "y = trimRight y @ q" using trimRight_decomp [of y] by blast
  with assms have "trimLeft (trimRight y @ q) = trimRight y @ q" by simp
  from trimLeft_prefix [OF this False] show ?thesis .
qed

subsection \<open>\<open>TrimSpace\<close>, \<open>ToLower\<close> and \<open>IndexByte\<close>\<close>

lemma TrimSpace_Nil [simp]: "TrimSpace [] = []"
  by (simp add: TrimSpace_def)

lemma TrimSpace_decomp:
  "\<exists>p q. t = p @ TrimSpace t @ q \<and> trimLeft p = []
     \<and> (\<forall>b\<in>set p \<union> set q. \<not> (byte b < 0x80 \<and> \<not> isSpace (byte b)))"
proof -
  obtain p where p: "t = p @ trimLeft t" "trimLeft p = []"
    "\<forall>b\<in>set p. \<not> (byte b < 0x80 \<and> \<not> isSpace (byte b))"
    using trimLeft_decomp [of t] by blast
  obtain q where q: "trimLeft t = trimRight (trimLeft t) @ q"
    "\<forall>b\<in>set q. \<not> (byte b < 0x80 \<and> \<not> isSpace (byte b))"
    using trimRight_decomp [of "trimLeft t"] by blast
  from p(1) q(1) have "t = p @ TrimSpace t @ q" by (simp add: TrimSpace_def)
  with p(2,3) q(2) show ?thesis by blast
qed

lemma TrimSpace_Nil_imp:
  assumes "TrimSpace x = []" shows "trimLeft x = []"
proof (rule ccontr)
  assume ne: "trimLeft x \<noteq> []"
  from assms have "trimRight (trimLeft x) = []" by (simp add: TrimSpace_def)
  from trimRight_Nil_first [OF this ne] have sp: "isSpace (fst (decodeRune (trimLeft x)))" .
  from ne obtain c cs where y: "trimLeft x = c # cs" by (cases "trimLeft x") auto
  have "trimLeft (c # cs) = c # cs" using trimLeft_idem [of x] unfolding y .
  then have "\<not> isSpace (fst (decodeRune (c # cs)))" by (simp add: trimLeft_id_iff)
  with sp y show False by simp
qed

lemma TrimSpace_Nil_iff: "TrimSpace x = [] \<longleftrightarrow> trimLeft x = []"
  using TrimSpace_Nil_imp [of x] by (auto simp: TrimSpace_def)

lemma TrimSpace_idem: "TrimSpace (TrimSpace t) = TrimSpace t"
proof -
  have "trimLeft (trimRight (trimLeft t)) = trimRight (trimLeft t)"
    by (rule trimLeft_trimRight [OF trimLeft_idem])
  then show ?thesis by (simp add: TrimSpace_def trimRight_idem)
qed

lemma TrimSpace_id_iff: "TrimSpace s = s \<longleftrightarrow> trimLeft s = s \<and> trimRight s = s"
proof
  assume a: "TrimSpace s = s"
  obtain p where p: "s = p @ trimLeft s" using trimLeft_decomp [of s] by blast
  have "length s = length (trimRight (trimLeft s))" using a by (simp add: TrimSpace_def)
  also have "\<dots> \<le> length (trimLeft s)" by (rule trimRight_length)
  finally have "length s \<le> length (trimLeft s)" .
  moreover have "length s = length p + length (trimLeft s)" using p by (metis length_append)
  ultimately have "p = []" by simp
  with p have l: "trimLeft s = s" by simp
  with a show "trimLeft s = s \<and> trimRight s = s" by (simp add: TrimSpace_def)
next
  assume "trimLeft s = s \<and> trimRight s = s"
  then show "TrimSpace s = s" by (simp add: TrimSpace_def)
qed

lemma solid_in_TrimSpace:
  assumes "byte c < 0x80" and "\<not> isSpace (byte c)"
  shows "c \<in> set (TrimSpace t) \<longleftrightarrow> c \<in> set t"
proof -
  obtain p q where d: "t = p @ TrimSpace t @ q"
    and s: "\<forall>b\<in>set p \<union> set q. \<not> (byte b < 0x80 \<and> \<not> isSpace (byte b))"
    using TrimSpace_decomp [of t] by blast
  from s assms have "c \<notin> set p" "c \<notin> set q" by auto
  moreover have "set t = set p \<union> set (TrimSpace t) \<union> set q"
    using d by (metis set_append sup_assoc)
  ultimately show ?thesis by blast
qed

lemma eq_in_TrimSpace: "CHR ''='' \<in> set (TrimSpace t) \<longleftrightarrow> CHR ''='' \<in> set t"
  by (rule solid_in_TrimSpace) (simp_all add: isSpace_def)

lemma TrimSpace_solid_ends:
  assumes "byte a < 0x80" "\<not> isSpace (byte a)" "byte b < 0x80" "\<not> isSpace (byte b)"
  shows "TrimSpace (a # s @ [b]) = a # s @ [b]"
proof -
  have "trimRight ((a # s) @ [b]) = (a # s) @ [b]" by (rule trimRight_solid [OF assms(3,4)])
  with trimLeft_solid [OF assms(1,2)] show ?thesis by (simp add: TrimSpace_def)
qed

lemma encodeRune_nonempty: "encodeRune r \<noteq> []"
  by (simp add: encodeRune_def)

lemma runes_Nil_iff: "runes s = [] \<longleftrightarrow> s = []"
  by (cases s) (auto split: prod.splits)

lemma ToLower_Nil_iff: "ToLower U s = [] \<longleftrightarrow> s = []"
proof (cases "list_all (\<lambda>c. byte c < 0x80) s")
  case True then show ?thesis by (simp add: ToLower_def)
next
  case False
  then have ne: "s \<noteq> []" by auto
  then obtain r rs where "runes s = r # rs" using runes_Nil_iff [of s] by (cases "runes s") auto
  with False ne show ?thesis by (simp add: ToLower_def encodeRune_nonempty)
qed

lemma ToLower_Nil [simp]: "ToLower U [] = []"
  by (simp add: ToLower_def)

lemma IndexByte_None_iff: "IndexByte s c = None \<longleftrightarrow> c \<notin> set s"
  by (induction s) auto

lemma IndexByte_append: "c \<notin> set xs \<Longrightarrow> IndexByte (xs @ c # ys) c = Some (length xs)"
  by (induction xs) auto

lemma IndexByte_SomeD:
  "IndexByte s c = Some p \<Longrightarrow> s = take p s @ c # drop (Suc p) s \<and> c \<notin> set (take p s)"
proof (induction s arbitrary: p)
  case Nil then show ?case by simp
next
  case (Cons a s)
  show ?case
  proof (cases "a = c")
    case True with Cons.prems show ?thesis by simp
  next
    case False
    with Cons.prems obtain q where q: "IndexByte s c = Some q" "p = Suc q" by auto
    from Cons.IH [OF q(1)] q(2) False show ?thesis by simp
  qed
qed

lemma IndexByte_spaces:
  assumes "IndexByte t (CHR ''='') = Some pos"
  shows "TrimSpace (take pos t) = [] \<longleftrightarrow> (TrimSpace t \<noteq> [] \<and> hd (TrimSpace t) = CHR ''='')"
proof -
  from IndexByte_SomeD [OF assms]
  have t: "t = take pos t @ CHR ''='' # drop (Suc pos) t" and nin: "CHR ''='' \<notin> set (take pos t)"
    by auto
  show ?thesis
  proof
    assume "TrimSpace (take pos t) = []"
    then have "trimLeft (take pos t) = []" by (rule TrimSpace_Nil_imp)
    then have "trimLeft (take pos t @ CHR ''='' # drop (Suc pos) t)
               = trimLeft (CHR ''='' # drop (Suc pos) t)"
      by (rule trimLeft_append)
    also have "\<dots> = CHR ''='' # drop (Suc pos) t" by (rule trimLeft_solid) (simp_all add: isSpace_def)
    finally have "trimLeft t = CHR ''='' # drop (Suc pos) t" using t by simp
    moreover obtain w where "trimRight (CHR ''='' # drop (Suc pos) t) = CHR ''='' # w"
      using trimRight_hd [of "CHR ''=''" "drop (Suc pos) t"] by (auto simp: isSpace_def)
    ultimately have "TrimSpace t = CHR ''='' # w" by (simp add: TrimSpace_def)
    then show "TrimSpace t \<noteq> [] \<and> hd (TrimSpace t) = CHR ''=''" by simp
  next
    assume a: "TrimSpace t \<noteq> [] \<and> hd (TrimSpace t) = CHR ''=''"
    obtain p q where dd: "t = p @ TrimSpace t @ q" and pe: "trimLeft p = []"
      and s: "\<forall>b\<in>set p \<union> set q. \<not> (byte b < 0x80 \<and> \<not> isSpace (byte b))"
      using TrimSpace_decomp [of t] by blast
    from a obtain r where r: "TrimSpace t = CHR ''='' # r" by (cases "TrimSpace t") auto
    have nsp: "CHR ''='' \<notin> set p"
    proof
      assume "CHR ''='' \<in> set p"
      with s have "\<not> (byte (CHR ''='') < 0x80 \<and> \<not> isSpace (byte (CHR ''='')))" by blast
      then show False by (simp add: isSpace_def)
    qed
    from dd r have "t = p @ CHR ''='' # (r @ q)" by simp
    then have "IndexByte t (CHR ''='') = Some (length p)"
      using IndexByte_append [OF nsp] by metis
    with assms have "pos = length p" by simp
    then have "take pos t = p" using dd by (metis append_eq_conv_conj)
    with pe show "TrimSpace (take pos t) = []" by (simp add: TrimSpace_def)
  qed
qed

lemmas eval_strings = decodeRune.simps(2) trimLeft.simps(2) trimRight.simps(2)

section \<open>Errors of the parser\<close>

lemma parseLine_error_indep:
  "parseLine U m t sec i = Inl e \<Longrightarrow> parseLine U m t sec0 i0 = Inl e"
  unfolding parseLine_def Let_def
  by (auto split: if_splits option.splits)

lemma parseLine_error_kinds:
  "parseLine U m t sec i = Inl e \<Longrightarrow>
     e = EmptySectionName m \<or> e = MissingDelimiter m \<or> e = EmptyKeyName m"
  unfolding parseLine_def Let_def
  by (auto split: if_splits option.splits)

lemma readLoop_error_prefix:
  "readLoop U toks n b sec i = (i', b', Some e) \<Longrightarrow>
   \<exists>pre bad post b''.
      toks = pre @ bad # post
    \<and> readLoop U pre n b sec i = (i', b'', None)
    \<and> readLoop U (pre @ [bad]) n b sec i = (i', b', Some e)
    \<and> (if maxTokenSize \<le> length bad then e = ScannerError
        else (\<forall>sec0 i0. parseLine U (n + length pre + 1) (dropCR bad) sec0 i0 = Inl e))"
proof (induction toks arbitrary: n b sec i)
  case Nil
  then show ?case by simp
next
  case (Cons tok toks)
  show ?case
  proof (cases "maxTokenSize \<le> length tok")
    case True
    with Cons.prems have "i' = i" "b' = b" "e = ScannerError" by auto
    with True have "tok # toks = [] @ tok # toks \<and> readLoop U [] n b sec i = (i', b, None)
      \<and> readLoop U ([] @ [tok]) n b sec i = (i', b', Some e)
      \<and> (if maxTokenSize \<le> length tok then e = ScannerError
        else (\<forall>sec0 i0. parseLine U (n + length ([]::string list) + 1) (dropCR tok) sec0 i0 = Inl e))"
      by simp
    then show ?thesis by blast
  next
    case False
    show ?thesis
    proof (cases "parseLine U (n + 1) (dropCR tok) sec i")
      case (Inl err)
      with False Cons.prems have eq: "i' = i" "e = err" "b' = b + int (length (dropCR tok) + 1)"
        by (auto simp: Let_def)
      from Inl eq have "\<forall>sec0 i0. parseLine U (n + 1) (dropCR tok) sec0 i0 = Inl e"
        by (auto intro: parseLine_error_indep)
      with False Inl eq have "tok # toks = [] @ tok # toks \<and> readLoop U [] n b sec i = (i', b, None)
        \<and> readLoop U ([] @ [tok]) n b sec i = (i', b', Some e)
        \<and> (if maxTokenSize \<le> length tok then e = ScannerError
          else (\<forall>sec0 i0. parseLine U (n + length ([]::string list) + 1) (dropCR tok) sec0 i0 = Inl e))"
        by (simp add: Let_def)
      then show ?thesis by blast
    next
      case (Inr p)
      obtain sec1 i1 where p: "p = (sec1, i1)" by (cases p)
      let ?b1 = "b + int (length (dropCR tok) + 1)"
      from False Inr p Cons.prems
      have "readLoop U toks (n + 1) ?b1 sec1 i1 = (i', b', Some e)"
        by (simp add: Let_def)
      from Cons.IH [OF this] obtain pre bad post b'' where
        d: "toks = pre @ bad # post"
        and r1: "readLoop U pre (n + 1) ?b1 sec1 i1 = (i', b'', None)"
        and r2: "readLoop U (pre @ [bad]) (n + 1) ?b1 sec1 i1 = (i', b', Some e)"
        and k: "if maxTokenSize \<le> length bad then e = ScannerError
                else (\<forall>sec0 i0. parseLine U (n + 1 + length pre + 1) (dropCR bad) sec0 i0 = Inl e)"
        by blast
      from d have "tok # toks = (tok # pre) @ bad # post" by simp
      moreover from False Inr p r1 have "readLoop U (tok # pre) n b sec i = (i', b'', None)"
        by (simp add: Let_def)
      moreover from False Inr p r2 have "readLoop U ((tok # pre) @ [bad]) n b sec i = (i', b', Some e)"
        by (simp add: Let_def)
      moreover have "if maxTokenSize \<le> length bad then e = ScannerError
                else (\<forall>sec0 i0. parseLine U (n + length (tok # pre) + 1) (dropCR bad) sec0 i0 = Inl e)"
      proof -
        have "n + 1 + length pre + 1 = n + length (tok # pre) + 1" by simp
        with k show ?thesis by (simp only:)
      qed
      ultimately show ?thesis by blast
    qed
  qed
qed


text \<open>
  Claim C5. When \<open>ReadFrom\<close> returns an error, the tokens of the input split into the
  lines before the failing one, the failing line and the rest; the document returned with
  the error is the document that parsing the earlier lines alone returns without error.
  \<open>Load\<close> returns the same document and error. After parsing \<open>a=1\<close>, line feed, \<open>[]\<close>
  the error is the empty section name at line 2 and \<open>Get\<close> of \<open>root\<close>, \<open>a\<close> returns
  \<open>(''1'', True)\<close>.
\<close>

theorem merge_on_error:
  "(ReadFrom U i source = (i', b', Some e) \<longrightarrow>
      (\<exists>pre bad post b''.
          scanLines [] source = pre @ bad # post
        \<and> readLoop U pre 0 0 ''root'' i = (i', b'', None)
        \<and> readLoop U (pre @ [bad]) 0 0 ''root'' i = (i', b', Some e)))
   \<and> Load U i source = (fst (ReadFrom U i source), snd (snd (ReadFrom U i source)))
   \<and> (\<exists>j. Load U New (''a=1'' @ [LF] @ ''[]'') = (j, Some (EmptySectionName 2))
          \<and> Get U j ''root'' ''a'' = (''1'', True))"
proof (intro conjI impI)
  assume "ReadFrom U i source = (i', b', Some e)"
  then have "readLoop U (scanLines [] source) 0 0 ''root'' i = (i', b', Some e)"
    by (simp add: ReadFrom_def)
  from readLoop_error_prefix [OF this]
  show "\<exists>pre bad post b''.
          scanLines [] source = pre @ bad # post
        \<and> readLoop U pre 0 0 ''root'' i = (i', b'', None)
        \<and> readLoop U (pre @ [bad]) 0 0 ''root'' i = (i', b', Some e)"
    by blast
next
  show "Load U i source = (fst (ReadFrom U i source), snd (snd (ReadFrom U i source)))"
    by (simp add: Load_def split: prod.splits)
next
  have "Load U New (''a=1'' @ [LF] @ ''[]'')
          = ([''root'' \<mapsto> [''a'' \<mapsto> ''1'']], Some (EmptySectionName 2))"
    by (simp add: Load_def eval_defs eval_strings)
  moreover have "Get U [''root'' \<mapsto> [''a'' \<mapsto> ''1'']] ''root'' ''a'' = (''1'', True)"
    by (simp add: eval_defs)
  ultimately show "\<exists>j. Load U New (''a=1'' @ [LF] @ ''[]'') = (j, Some (EmptySectionName 2))
          \<and> Get U j ''root'' ''a'' = (''1'', True)"
    by blast
qed

theorem merge_on_error_witness:
  "ReadFrom latin1Lower New (''k=v'' @ [LF] @ ''oops'')
     = ([''root'' \<mapsto> [''k'' \<mapsto> ''v'']], 9, Some (MissingDelimiter 2))
   \<and> (\<exists>pre bad post b''.
          scanLines [] (''k=v'' @ [LF] @ ''oops'') = pre @ bad # post
        \<and> readLoop latin1Lower pre 0 0 ''root'' New = ([''root'' \<mapsto> [''k'' \<mapsto> ''v'']], b'', None))"
proof -
  have r: "ReadFrom latin1Lower New (''k=v'' @ [LF] @ ''oops'')
             = ([''root'' \<mapsto> [''k'' \<mapsto> ''v'']], 9, Some (MissingDelimiter 2))"
    by (simp add: eval_defs eval_strings)
  with merge_on_error [of latin1Lower New "''k=v'' @ [LF] @ ''oops''"
      "[''root'' \<mapsto> [''k'' \<mapsto> ''v'']]" 9 "MissingDelimiter 2"]
  show ?thesis by blast
qed

lemma parseLine_blank:
  "TrimSpace t = [] \<Longrightarrow> parseLine U n t sec i = Inr (sec, i)"
  by (simp add: parseLine_def)

lemma parseLine_comment:
  "TrimSpace t \<noteq> [] \<Longrightarrow> hd (TrimSpace t) = CHR '';'' \<or> hd (TrimSpace t) = CHR ''#'' \<Longrightarrow>
   parseLine U n t sec i = Inr (sec, i)"
  by (simp add: parseLine_def)

lemma parseLine_header:
  "2 \<le> length (TrimSpace t) \<Longrightarrow> hd (TrimSpace t) = CHR ''['' \<Longrightarrow> last (TrimSpace t) = CHR '']'' \<Longrightarrow>
   parseLine U n t sec i =
     (if TrimSpace (butlast (tl (TrimSpace t))) = [] then Inl (EmptySectionName n)
      else Inr (ToLower U (TrimSpace (butlast (tl (TrimSpace t)))), i))"
proof -
  assume a: "2 \<le> length (TrimSpace t)" "hd (TrimSpace t) = CHR ''[''" "last (TrimSpace t) = CHR '']''"
  from a(1) have "TrimSpace t \<noteq> []" by auto
  with a show ?thesis by (simp add: parseLine_def Let_def ToLower_Nil_iff)
qed

lemma parseLine_keyvalue:
  "TrimSpace t \<noteq> [] \<Longrightarrow> hd (TrimSpace t) \<noteq> CHR '';'' \<Longrightarrow> hd (TrimSpace t) \<noteq> CHR ''#'' \<Longrightarrow>
   \<not> (2 \<le> length (TrimSpace t) \<and> hd (TrimSpace t) = CHR ''['' \<and> last (TrimSpace t) = CHR '']'') \<Longrightarrow>
   parseLine U n t sec i =
     (case IndexByte (TrimSpace t) (CHR ''='') of
        None \<Rightarrow> Inl (MissingDelimiter n)
      | Some pos \<Rightarrow>
          if TrimSpace (take pos (TrimSpace t)) = [] then Inl (EmptyKeyName n)
          else Inr (sec,
                 case i sec of
                   None \<Rightarrow> i(sec \<mapsto> Map.empty(ToLower U (TrimSpace (take pos (TrimSpace t)))
                               \<mapsto> unquote (TrimSpace (drop (pos + 1) (TrimSpace t)))))
                 | Some sectionMap \<Rightarrow> i(sec \<mapsto> sectionMap(ToLower U (TrimSpace (take pos (TrimSpace t)))
                               \<mapsto> unquote (TrimSpace (drop (pos + 1) (TrimSpace t)))))))"
  unfolding parseLine_def Let_def
  by (simp only: ToLower_Nil_iff length_0_conv if_False simp_thms)

lemma parseLine_cases:
  obtains (blank) "TrimSpace t = []"
  | (comment) "TrimSpace t \<noteq> []" "hd (TrimSpace t) = CHR '';'' \<or> hd (TrimSpace t) = CHR ''#''"
  | (header) "2 \<le> length (TrimSpace t)" "hd (TrimSpace t) = CHR ''[''" "last (TrimSpace t) = CHR '']''"
  | (keyvalue) "TrimSpace t \<noteq> []" "hd (TrimSpace t) \<noteq> CHR '';''" "hd (TrimSpace t) \<noteq> CHR ''#''"
      "\<not> (2 \<le> length (TrimSpace t) \<and> hd (TrimSpace t) = CHR ''['' \<and> last (TrimSpace t) = CHR '']'')"
  by blast

lemma parseLine_EmptySectionName_iff:
  "parseLine U n t sec i = Inl (EmptySectionName m) \<longleftrightarrow>
     m = n \<and> 2 \<le> length (TrimSpace t) \<and> hd (TrimSpace t) = CHR ''[''
     \<and> last (TrimSpace t) = CHR '']'' \<and> TrimSpace (butlast (tl (TrimSpace t))) = []"
proof (cases t rule: parseLine_cases)
  case blank
  then show ?thesis by (simp add: parseLine_blank)
next
  case comment
  then show ?thesis by (auto simp: parseLine_comment)
next
  case header
  then show ?thesis by (auto simp: parseLine_header)
next
  case keyvalue
  then show ?thesis by (auto simp: parseLine_keyvalue split: option.splits)
qed

lemma parseLine_MissingDelimiter_iff:
  "parseLine U n t sec i = Inl (MissingDelimiter m) \<longleftrightarrow>
     m = n \<and> TrimSpace t \<noteq> [] \<and> hd (TrimSpace t) \<noteq> CHR '';'' \<and> hd (TrimSpace t) \<noteq> CHR ''#''
     \<and> \<not> (2 \<le> length (TrimSpace t) \<and> hd (TrimSpace t) = CHR ''[''
           \<and> last (TrimSpace t) = CHR '']'')
     \<and> CHR ''='' \<notin> set t"
proof (cases t rule: parseLine_cases)
  case blank
  then show ?thesis by (simp add: parseLine_blank)
next
  case comment
  then show ?thesis by (auto simp: parseLine_comment)
next
  case header
  then show ?thesis by (simp add: parseLine_header)
next
  case keyvalue
  have "IndexByte (TrimSpace t) (CHR ''='') = None \<longleftrightarrow> CHR ''='' \<notin> set t"
    by (simp add: IndexByte_None_iff eq_in_TrimSpace)
  with keyvalue show ?thesis
    by (auto simp: parseLine_keyvalue split: option.splits)
qed

lemma parseLine_EmptyKeyName_trimmed:
  "parseLine U n t sec i = Inl (EmptyKeyName m) \<longleftrightarrow>
     m = n \<and> TrimSpace t \<noteq> [] \<and> hd (TrimSpace t) = CHR ''=''"
proof (cases t rule: parseLine_cases)
  case blank
  then show ?thesis by (simp add: parseLine_blank)
next
  case comment
  then show ?thesis by (auto simp: parseLine_comment)
next
  case header
  then show ?thesis by (simp add: parseLine_header)
next
  case keyvalue
  let ?l = "TrimSpace t"
  have key: "(\<exists>pos. IndexByte ?l (CHR ''='') = Some pos \<and> TrimSpace (take pos ?l) = [])
             \<longleftrightarrow> hd ?l = CHR ''=''"
  proof
    assume "\<exists>pos. IndexByte ?l (CHR ''='') = Some pos \<and> TrimSpace (take pos ?l) = []"
    then obtain pos where pos: "IndexByte ?l (CHR ''='') = Some pos"
      and k: "TrimSpace (take pos ?l) = []" by blast
    from IndexByte_spaces [OF pos] k show "hd ?l = CHR ''=''"
      by (simp add: TrimSpace_idem)
  next
    assume "hd ?l = CHR ''=''"
    with keyvalue(1) obtain r where r: "?l = CHR ''='' # r" by (cases ?l) auto
    then show "\<exists>pos. IndexByte ?l (CHR ''='') = Some pos \<and> TrimSpace (take pos ?l) = []"
      by simp
  qed
  have "parseLine U n t sec i = Inl (EmptyKeyName m) \<longleftrightarrow>
        m = n \<and> (\<exists>pos. IndexByte ?l (CHR ''='') = Some pos \<and> TrimSpace (take pos ?l) = [])"
    using keyvalue by (auto simp: parseLine_keyvalue split: option.splits)
  with key keyvalue(1) show ?thesis by simp
qed

lemma parseLine_EmptyKeyName_iff:
  "parseLine U n t sec i = Inl (EmptyKeyName m) \<longleftrightarrow>
     m = n \<and> (\<exists>pos. IndexByte t (CHR ''='') = Some pos \<and> TrimSpace (take pos t) = [])"
proof -
  have "(\<exists>pos. IndexByte t (CHR ''='') = Some pos \<and> TrimSpace (take pos t) = [])
        \<longleftrightarrow> (TrimSpace t \<noteq> [] \<and> hd (TrimSpace t) = CHR ''='')"
  proof
    assume "\<exists>pos. IndexByte t (CHR ''='') = Some pos \<and> TrimSpace (take pos t) = []"
    then show "TrimSpace t \<noteq> [] \<and> hd (TrimSpace t) = CHR ''=''"
      using IndexByte_spaces by blast
  next
    assume a: "TrimSpace t \<noteq> [] \<and> hd (TrimSpace t) = CHR ''=''"
    then have "CHR ''='' \<in> set (TrimSpace t)" by (metis hd_in_set)
    then have "CHR ''='' \<in> set t" by (simp add: eq_in_TrimSpace)
    then obtain pos where p: "IndexByte t (CHR ''='') = Some pos"
      using IndexByte_None_iff [of t "CHR ''=''"] by (cases "IndexByte t (CHR ''='')") auto
    with a IndexByte_spaces [OF p] show "\<exists>pos. IndexByte t (CHR ''='') = Some pos \<and> TrimSpace (take pos t) = []"
      by blast
  qed
  then show ?thesis by (simp add: parseLine_EmptyKeyName_trimmed)
qed

lemma parseLine_isl_indep:
  "isl (parseLine U m t sec i) = isl (parseLine U m t sec0 i0)"
proof (cases "parseLine U m t sec i")
  case (Inl e)
  from parseLine_error_indep [OF this, of sec0 i0] Inl show ?thesis by simp
next
  case (Inr p)
  show ?thesis
  proof (cases "parseLine U m t sec0 i0")
    case (Inl e)
    from parseLine_error_indep [OF this, of sec i] Inr show ?thesis by simp
  next
    case (Inr q)
    with \<open>parseLine U m t sec i = Inr p\<close> show ?thesis by simp
  qed
qed

lemma readLoop_first_error:
  assumes "\<forall>t\<in>set (pre @ [bad]). length t < maxTokenSize"
    and "\<forall>j<length pre. \<not> isl (parseLine U (n + j + 1) (dropCR (pre ! j)) sec0 i0)"
    and "parseLine U (n + length pre + 1) (dropCR bad) sec0 i0 = Inl e"
  shows "snd (snd (readLoop U (pre @ bad # post) n b sec i)) = Some e"
  using assms
proof (induction pre arbitrary: n b sec i)
  case Nil
  from Nil.prems(3) have "parseLine U (n + 1) (dropCR bad) sec i = Inl e"
    by (auto intro: parseLine_error_indep)
  with Nil.prems(1) show ?case by (simp add: Let_def)
next
  case (Cons tok pre)
  from Cons.prems(1) have short: "\<not> maxTokenSize \<le> length tok" by simp
  from Cons.prems(2) have "\<not> isl (parseLine U (n + 0 + 1) (dropCR ((tok # pre) ! 0)) sec0 i0)"
    by blast
  then have "\<not> isl (parseLine U (n + 1) (dropCR tok) sec i)"
    using parseLine_isl_indep [of U "n + 1" "dropCR tok" sec i sec0 i0] by simp
  then obtain sec1 i1 where p: "parseLine U (n + 1) (dropCR tok) sec i = Inr (sec1, i1)"
    by (cases "parseLine U (n + 1) (dropCR tok) sec i") auto
  have 1: "\<forall>t\<in>set (pre @ [bad]). length t < maxTokenSize" using Cons.prems(1) by simp
  have 2: "\<forall>j<length pre. \<not> isl (parseLine U (n + 1 + j + 1) (dropCR (pre ! j)) sec0 i0)"
  proof (intro allI impI)
    fix j assume "j < length pre"
    then have "Suc j < length (tok # pre)" by simp
    with Cons.prems(2)
    have "\<not> isl (parseLine U (n + Suc j + 1) (dropCR ((tok # pre) ! Suc j)) sec0 i0)" by blast
    then show "\<not> isl (parseLine U (n + 1 + j + 1) (dropCR (pre ! j)) sec0 i0)" by simp
  qed
  have 3: "parseLine U (n + 1 + length pre + 1) (dropCR bad) sec0 i0 = Inl e"
    using Cons.prems(3) by simp
  from Cons.IH [OF 1 2 3] short p show ?case by (simp add: Let_def)
qed

text \<open>
  Claim C6. For a scanned line \<open>t\<close> with line number \<open>n\<close>: the parser fails with the empty
  section name exactly when the trimmed line has at least two characters, starts with an
  opening bracket, ends with a closing bracket and its interior trims to empty; with the
  empty key name exactly when the text before the first equals sign of the line trims to
  empty; with the missing delimiter exactly when the trimmed line is not empty, is no
  comment, is no header and the line has no equals sign. The error carries the number
  \<open>n\<close> of the line. When \<open>ReadFrom\<close> returns a format error, the failing line is the
  token at position \<open>length pre + 1\<close> counting every token scanned (blank and comment lines
  too), the error carries that number, and the lines before it parse without error.
  Conversely, when a line fails and no line before it does (all of them shorter than the
  scanner's limit), \<open>ReadFrom\<close> returns the error of that line: parsing stops at the first
  error. The three inputs of the specification fail at line 1 with the errors given
  there.
\<close>

theorem format_errors:
  "(parseLine U n t sec i = Inl (EmptySectionName m) \<longleftrightarrow>
      m = n \<and> 2 \<le> length (TrimSpace t) \<and> hd (TrimSpace t) = CHR ''[''
      \<and> last (TrimSpace t) = CHR '']'' \<and> TrimSpace (butlast (tl (TrimSpace t))) = [])
   \<and> (parseLine U n t sec i = Inl (EmptyKeyName m) \<longleftrightarrow>
      m = n \<and> (\<exists>pos. IndexByte t (CHR ''='') = Some pos \<and> TrimSpace (take pos t) = []))
   \<and> (parseLine U n t sec i = Inl (MissingDelimiter m) \<longleftrightarrow>
      m = n \<and> TrimSpace t \<noteq> [] \<and> hd (TrimSpace t) \<noteq> CHR '';'' \<and> hd (TrimSpace t) \<noteq> CHR ''#''
      \<and> \<not> (2 \<le> length (TrimSpace t) \<and> hd (TrimSpace t) = CHR ''[''
            \<and> last (TrimSpace t) = CHR '']'')
      \<and> CHR ''='' \<notin> set t)
   \<and> (ReadFrom U i source = (i', b', Some e) \<and> e \<noteq> ScannerError \<longrightarrow>
        (\<exists>pre bad post.
            scanLines [] source = pre @ bad # post
          \<and> snd (snd (readLoop U pre 0 0 ''root'' i)) = None
          \<and> parseLine U (length pre + 1) (dropCR bad) sec i = Inl e
          \<and> (e = EmptySectionName (length pre + 1) \<or> e = MissingDelimiter (length pre + 1)
              \<or> e = EmptyKeyName (length pre + 1))))
   \<and> (scanLines [] source = pre @ bad # post
        \<and> (\<forall>l\<in>set (pre @ [bad]). length l < maxTokenSize)
        \<and> (\<forall>j<length pre. \<not> isl (parseLine U (j + 1) (dropCR (pre ! j)) sec i))
        \<and> parseLine U (length pre + 1) (dropCR bad) sec i = Inl e
      \<longrightarrow> snd (snd (ReadFrom U i source)) = Some e)
   \<and> snd (Load U New (''[]'' @ [LF] @ ''key=value'')) = Some (EmptySectionName 1)
   \<and> snd (Load U New ''=value'') = Some (EmptyKeyName 1)
   \<and> snd (Load U New ''invalid line without equals'') = Some (MissingDelimiter 1)"
proof (intro conjI impI)
  assume a: "ReadFrom U i source = (i', b', Some e) \<and> e \<noteq> ScannerError"
  then have "readLoop U (scanLines [] source) 0 0 ''root'' i = (i', b', Some e)"
    by (simp add: ReadFrom_def)
  from readLoop_error_prefix [OF this] obtain pre bad post b'' where
    d: "scanLines [] source = pre @ bad # post"
    and r: "readLoop U pre 0 0 ''root'' i = (i', b'', None)"
    and k: "if maxTokenSize \<le> length bad then e = ScannerError
            else (\<forall>sec0 i0. parseLine U (0 + length pre + 1) (dropCR bad) sec0 i0 = Inl e)"
    by blast
  from k a have p: "parseLine U (length pre + 1) (dropCR bad) sec i = Inl e"
    by (simp split: if_splits)
  from parseLine_error_kinds [OF p] d r p
  show "\<exists>pre bad post.
            scanLines [] source = pre @ bad # post
          \<and> snd (snd (readLoop U pre 0 0 ''root'' i)) = None
          \<and> parseLine U (length pre + 1) (dropCR bad) sec i = Inl e
          \<and> (e = EmptySectionName (length pre + 1) \<or> e = MissingDelimiter (length pre + 1)
              \<or> e = EmptyKeyName (length pre + 1))"
    by (metis snd_conv)
next
  assume a: "scanLines [] source = pre @ bad # post
        \<and> (\<forall>l\<in>set (pre @ [bad]). length l < maxTokenSize)
        \<and> (\<forall>j<length pre. \<not> isl (parseLine U (j + 1) (dropCR (pre ! j)) sec i))
        \<and> parseLine U (length pre + 1) (dropCR bad) sec i = Inl e"
  then have 1: "\<forall>l\<in>set (pre @ [bad]). length l < maxTokenSize"
    and 2: "\<forall>j<length pre. \<not> isl (parseLine U (0 + j + 1) (dropCR (pre ! j)) sec i)"
    and 3: "parseLine U (0 + length pre + 1) (dropCR bad) sec i = Inl e"
    by simp_all
  from readLoop_first_error [OF 1 2 3, of post 0 "''root''" i] a
  show "snd (snd (ReadFrom U i source)) = Some e"
    by (simp add: ReadFrom_def)
next
  show "snd (Load U New (''[]'' @ [LF] @ ''key=value'')) = Some (EmptySectionName 1)"
    by (simp add: Load_def eval_defs eval_strings)
  show "snd (Load U New ''=value'') = Some (EmptyKeyName 1)"
    by (simp add: Load_def eval_defs eval_strings)
  show "snd (Load U New ''invalid line without equals'') = Some (MissingDelimiter 1)"
    by (simp add: Load_def eval_defs eval_strings)
qed (rule parseLine_EmptySectionName_iff parseLine_EmptyKeyName_iff parseLine_MissingDelimiter_iff)+

theorem format_errors_witness:
  "parseLine latin1Lower 3 '' [  ] '' ''root'' New = Inl (EmptySectionName 3)
   \<and> parseLine latin1Lower 3 [CHR 0xC2, CHR 0xA0, CHR ''='', CHR ''x''] ''root'' New
       = Inl (EmptyKeyName 3)
   \<and> parseLine latin1Lower 3 ''[abc'' ''root'' New = Inl (MissingDelimiter 3)
   \<and> parseLine latin1Lower 3 [CHR 0xC2, CHR 0xA0] ''root'' New = Inr (''root'', New)
   \<and> ReadFrom latin1Lower New (''; c'' @ [LF, LF] @ ''[abc'') = (New, 10, Some (MissingDelimiter 3))
   \<and> (\<exists>pre bad post. scanLines [] (''; c'' @ [LF, LF] @ ''[abc'') = pre @ bad # post
         \<and> MissingDelimiter 3 = MissingDelimiter (length pre + 1))
   \<and> snd (snd (ReadFrom latin1Lower New (''; c'' @ [LF, LF] @ ''[abc'' @ [LF] @ ''[]'')))
       = Some (MissingDelimiter 3)"
proof -
  note th = format_errors [where U = latin1Lower and n = 3 and sec = "''root''" and i = New
      and m = 3 and i' = New and b' = 10 and e = "MissingDelimiter 3"]
  note ev = TrimSpace_def decodeLastRune_def isSpace_def runeStart_def RuneError_def eval_strings
  have 1: "parseLine latin1Lower 3 '' [  ] '' ''root'' New = Inl (EmptySectionName 3)"
    using th [where t = "'' [  ] ''"] by (simp add: ev)
  have 2: "parseLine latin1Lower 3 [CHR 0xC2, CHR 0xA0, CHR ''='', CHR ''x''] ''root'' New
            = Inl (EmptyKeyName 3)"
    using th [where t = "[CHR 0xC2, CHR 0xA0, CHR ''='', CHR ''x'']"] by (simp add: ev)
  have 3: "parseLine latin1Lower 3 ''[abc'' ''root'' New = Inl (MissingDelimiter 3)"
    using th [where t = "''[abc''"] by (simp add: ev)
  have 7: "parseLine latin1Lower 3 [CHR 0xC2, CHR 0xA0] ''root'' New = Inr (''root'', New)"
    by (simp add: parseLine_def ev)
  have 4: "ReadFrom latin1Lower New (''; c'' @ [LF, LF] @ ''[abc'')
             = (New, 10, Some (MissingDelimiter 3))"
    by (simp add: eval_defs eval_strings)
  have 5: "\<exists>pre bad post. scanLines [] (''; c'' @ [LF, LF] @ ''[abc'') = pre @ bad # post
         \<and> MissingDelimiter 3 = MissingDelimiter (length pre + 1)"
  proof -
    have h: "ReadFrom latin1Lower New (''; c'' @ [LF, LF] @ ''[abc'')
               = (New, 10, Some (MissingDelimiter 3))
             \<and> MissingDelimiter 3 \<noteq> ScannerError"
      using 4 by simp
    from th [where t = "[]" and source = "''; c'' @ [LF, LF] @ ''[abc''"] have
      "ReadFrom latin1Lower New (''; c'' @ [LF, LF] @ ''[abc'') = (New, 10, Some (MissingDelimiter 3))
         \<and> MissingDelimiter 3 \<noteq> ScannerError \<longrightarrow>
       (\<exists>pre bad post. scanLines [] (''; c'' @ [LF, LF] @ ''[abc'') = pre @ bad # post
          \<and> snd (snd (readLoop latin1Lower pre 0 0 ''root'' New)) = None
          \<and> parseLine latin1Lower (length pre + 1) (dropCR bad) ''root'' New = Inl (MissingDelimiter 3)
          \<and> (MissingDelimiter 3 = EmptySectionName (length pre + 1)
              \<or> MissingDelimiter 3 = MissingDelimiter (length pre + 1)
              \<or> MissingDelimiter 3 = EmptyKeyName (length pre + 1)))"
      by blast
    with h obtain pre bad post where
      "scanLines [] (''; c'' @ [LF, LF] @ ''[abc'') = pre @ bad # post"
      "MissingDelimiter 3 = EmptySectionName (length pre + 1)
              \<or> MissingDelimiter 3 = MissingDelimiter (length pre + 1)
              \<or> MissingDelimiter 3 = EmptyKeyName (length pre + 1)"
      by blast
    then show ?thesis by blast
  qed
  have 6: "snd (snd (ReadFrom latin1Lower New (''; c'' @ [LF, LF] @ ''[abc'' @ [LF] @ ''[]'')))
             = Some (MissingDelimiter 3)"
  proof -
    let ?src = "''; c'' @ [LF, LF] @ ''[abc'' @ [LF] @ ''[]''"
    have a: "scanLines [] ?src = [''; c'', []] @ ''[abc'' # [''[]'']" by simp
    have b: "\<forall>l\<in>set ([''; c'', []] @ [''[abc'']). length l < maxTokenSize"
      by (simp add: maxTokenSize_def)
    have c: "\<forall>j<length [''; c'', ([]::string)].
               \<not> isl (parseLine latin1Lower (j + 1) (dropCR ([''; c'', []] ! j)) ''root'' New)"
      by (simp add: less_Suc_eq parseLine_def dropCR_def ev)
    have d: "parseLine latin1Lower (length [''; c'', ([]::string)] + 1) (dropCR ''[abc'') ''root'' New
               = Inl (MissingDelimiter 3)"
      by (simp add: parseLine_def dropCR_def ev)
    from th [where t = "[]" and source = ?src and pre = "[''; c'', []]" and bad = "''[abc''"
        and post = "[''[]'']"] a b c d
    show ?thesis by blast
  qed
  from 1 2 3 7 4 5 6 show ?thesis by blast
qed

section \<open>Key-value lines\<close>

text \<open>
  Claim C7. A key-value line (a trimmed line that is not empty, no comment and no header)
  is split at its first equals sign: when the trimmed line is \<open>k\<close>, an equals sign and
  \<open>rest\<close>, with no equals sign in \<open>k\<close> and \<open>k\<close> not blank, the parser stores the trimmed,
  lower-cased \<open>k\<close> with the value got from the trimmed \<open>rest\<close> by the quote handling,
  whatever equals signs \<open>rest\<close> holds. Parsing the line \<open>var1="value with = sign"\<close> stores
  \<open>value with = sign\<close> under \<open>var1\<close> of \<open>root\<close>.
\<close>

theorem first_equals_delimiter:
  assumes "TrimSpace t = k @ CHR ''='' # rest" and "CHR ''='' \<notin> set k"
    and "TrimSpace k \<noteq> []"
    and "hd (TrimSpace t) \<noteq> CHR '';''" and "hd (TrimSpace t) \<noteq> CHR ''#''"
    and "\<not> (2 \<le> length (TrimSpace t) \<and> hd (TrimSpace t) = CHR ''[''
            \<and> last (TrimSpace t) = CHR '']'')"
  shows "parseLine U n t sec i =
           Inr (sec,
                case i sec of
                  None \<Rightarrow> i(sec \<mapsto> Map.empty(ToLower U (TrimSpace k) \<mapsto> unquote (TrimSpace rest)))
                | Some sectionMap \<Rightarrow>
                    i(sec \<mapsto> sectionMap(ToLower U (TrimSpace k) \<mapsto> unquote (TrimSpace rest))))
         \<and> (\<exists>j. Load U New (''var1='' @ [DQ] @ ''value with = sign'' @ [DQ]) = (j, None)
                \<and> Get U j ''root'' ''var1'' = (''value with = sign'', True))"
proof
  have ne: "TrimSpace t \<noteq> []" using assms(1) by simp
  have pos: "IndexByte (TrimSpace t) (CHR ''='') = Some (length k)"
    using IndexByte_append [OF assms(2)] assms(1) by simp
  have tk: "take (length k) (TrimSpace t) = k" using assms(1) by simp
  have dr: "drop (length k + 1) (TrimSpace t) = rest" using assms(1) by simp
  show "parseLine U n t sec i =
           Inr (sec,
                case i sec of
                  None \<Rightarrow> i(sec \<mapsto> Map.empty(ToLower U (TrimSpace k) \<mapsto> unquote (TrimSpace rest)))
                | Some sectionMap \<Rightarrow>
                    i(sec \<mapsto> sectionMap(ToLower U (TrimSpace k) \<mapsto> unquote (TrimSpace rest))))"
    unfolding parseLine_keyvalue [OF ne assms(4) assms(5) assms(6)] pos
    using assms(3) by (simp only: option.case tk dr if_False)
next
  have "Load U New (''var1='' @ [DQ] @ ''value with = sign'' @ [DQ])
          = ([''root'' \<mapsto> [''var1'' \<mapsto> ''value with = sign'']], None)"
    by (simp add: Load_def eval_defs eval_strings)
  moreover have "Get U [''root'' \<mapsto> [''var1'' \<mapsto> ''value with = sign'']] ''root'' ''var1''
          = (''value with = sign'', True)"
    by (simp add: eval_defs)
  ultimately show "\<exists>j. Load U New (''var1='' @ [DQ] @ ''value with = sign'' @ [DQ]) = (j, None)
                \<and> Get U j ''root'' ''var1'' = (''value with = sign'', True)"
    by blast
qed

theorem first_equals_delimiter_witness:
  "parseLine latin1Lower 1 ([CHR 0xC2, CHR 0xA0, CHR 0xC3, CHR 0x89] @ '' = a=b '') ''root'' New
     = Inr (''root'', [''root'' \<mapsto> [[CHR 0xC3, CHR 0xA9] \<mapsto> ''a=b'']])"
proof -
  let ?t = "[CHR 0xC2, CHR 0xA0, CHR 0xC3, CHR 0x89] @ '' = a=b ''"
  let ?k = "[CHR 0xC3, CHR 0x89, CHR '' '']"
  note ev = TrimSpace_def decodeLastRune_def isSpace_def runeStart_def RuneError_def eval_strings
  have 1: "TrimSpace ?t = ?k @ CHR ''='' # '' a=b''"
    by (simp add: ev)
  have 2: "CHR ''='' \<notin> set ?k" by simp
  have 3: "TrimSpace ?k \<noteq> []" by (simp add: ev)
  have 4: "hd (TrimSpace ?t) \<noteq> CHR '';''" unfolding 1 by simp
  have 5: "hd (TrimSpace ?t) \<noteq> CHR ''#''" unfolding 1 by simp
  have 6: "\<not> (2 \<le> length (TrimSpace ?t) \<and> hd (TrimSpace ?t) = CHR ''[''
            \<and> last (TrimSpace ?t) = CHR '']'')"
    unfolding 1 by simp
  have "TrimSpace ?k = [CHR 0xC3, CHR 0x89]" by (simp add: ev)
  moreover have "ToLower latin1Lower [CHR 0xC3, CHR 0x89] = [CHR 0xC3, CHR 0xA9]" by code_simp
  ultimately have 7: "ToLower latin1Lower (TrimSpace ?k) = [CHR 0xC3, CHR 0xA9]" by simp
  have 8: "unquote (TrimSpace '' a=b'') = ''a=b''" by (simp add: ev unquote_def)
  from first_equals_delimiter [OF 1 2 3 4 5 6, of latin1Lower 1 "''root''" New]
  show ?thesis unfolding 7 8 by (simp add: New_def)
qed

end
